theory Spec2Isabelle
  imports Complex_Main "HOL-Library.Multiset" "HOL-Library.Word"
begin

unbundle bit_operations_syntax

section \<open>Numbers\<close>

text \<open>
  The program is TypeScript; every \<^verbatim>\<open>number\<close> is an IEEE double.  The embedding
  uses exact arithmetic: \<^typ>\<open>nat\<close> for array lengths, team sizes and indices,
  \<^typ>\<open>int\<close> for values the code has passed through \<^verbatim>\<open>Math.round\<close> or reads
  through a 32-bit operator (course handicaps, pools, payout amounts, the seed),
  and \<^typ>\<open>rat\<close> for the remaining finite quantities (handicap index, slope, fees,
  paid places, group strength, payout ratios).  Non-finite doubles are outside the model; the
  concrete inputs used below are chosen so that the double computation is exact
  or far from a rounding boundary.

  \<^verbatim>\<open>Math.round(x)\<close> is the integer nearest to \<open>x\<close>, a tie going towards
  \<open>+\<infinity>\<close>; this is \<^term>\<open>round\<close> of the library: \<open>round x = \<lfloor>x + 1/2\<rfloor>\<close>.
\<close>

section \<open>Data model (types/golf.ts, utils/game.ts)\<close>

text \<open>
  Interfaces are records, with the source's field names.  Where a name is taken
  (\<open>id\<close>, \<open>size\<close>) or is a field of two interfaces (\<open>id\<close>, \<open>players\<close>, \<open>name\<close>,
  \<open>course\<close>), the field carries its interface's name: \<open>player_id\<close>, \<open>team_id\<close>,
  \<open>group_id\<close>, \<open>group_size\<close>, \<open>course_name\<close>, \<open>course_players\<close>, \<open>game_course\<close>.
  An optional field is an option.
\<close>

datatype tee = White | Blue | Red

record player =
  player_id :: string
  firstName :: string
  lastName :: "string option"
  handicapIndex :: rat
  tee :: tee
  linkGroupId :: "string option"

text \<open>The slope of a tee may be unset; \<open>None\<close> is JavaScript's \<^verbatim>\<open>undefined\<close>.\<close>

record courseSlopesByTee =
  white :: "rat option"
  blue :: "rat option"
  red :: "rat option"

record course =
  course_name :: string
  par :: int
  slopes :: courseSlopesByTee
  course_players :: "player list"

record playerWithCH = player +
  courseHandicap :: int

section \<open>Handicap enrichment (utils/handicap.ts)\<close>

text \<open>\<^verbatim>\<open>course.slopes[tee]\<close>\<close>

definition slopeAt :: "courseSlopesByTee \<Rightarrow> tee \<Rightarrow> rat option" where
  "slopeAt s t = (case t of White \<Rightarrow> white s | Blue \<Rightarrow> blue s | Red \<Rightarrow> red s)"

text \<open>\<^verbatim>\<open>course.slopes[tee] || 0\<close>: an unset slope and a slope of 0 both give 0.\<close>

definition slopeFor :: "course \<Rightarrow> tee \<Rightarrow> rat" where
  "slopeFor c t = (case slopeAt (slopes c) t of None \<Rightarrow> 0 | Some s \<Rightarrow> if s = 0 then 0 else s)"

definition courseHandicapFor :: "course \<Rightarrow> rat \<Rightarrow> tee \<Rightarrow> int" where
  "courseHandicapFor c hi t =
     (let slope = slopeFor c t;
          ch = (hi * slope) / 113
      in round ch)"

definition computePlayerCH :: "course \<Rightarrow> player \<Rightarrow> playerWithCH" where
  "computePlayerCH c p = player.extend p (playerWithCH.fields (courseHandicapFor c (handicapIndex p) (tee p)))"


section \<open>Team-size planner\<close>

text \<open>
  The argument is \<^verbatim>\<open>enriched.length\<close>, a natural number (\<open>tot\<close> for the source's
  \<^verbatim>\<open>total\<close>).  A loop that pushes \<open>k\<close> times the size 4 is \<open>replicate k 4\<close>.
\<close>

definition determineTeamSizes :: "nat \<Rightarrow> nat list" where
  "determineTeamSizes tot =
     (if tot \<le> 4 then [tot]
      else
        let n4 = tot div 4;
            rem = tot - n4 * 4
        in if rem = 0 then replicate n4 4
           else if rem = 1 then
             (if n4 \<ge> 2 then replicate (n4 - 2) 4 @ [3, 3, 3] else [3, 2])
           else if rem = 2 then
             (if n4 \<ge> 1 then replicate (n4 - 1) 4 @ [3, 3] else [2])
           else replicate n4 4 @ [3])"

section \<open>Host environment\<close>

text \<open>
  Two things the program takes from its JavaScript host: the collation behind
  \<^verbatim>\<open>String.prototype.localeCompare\<close> and the stream behind \<^verbatim>\<open>Math.random\<close>.
  Both are parameters of the model.  The \<open>k\<close>-th call of \<^verbatim>\<open>Math.random()\<close> returns
  \<open>frac (mathRandom h k)\<close>: any value of \<open>[0, 1)\<close> and nothing else.
\<close>

record host =
  localeCompare :: "string \<Rightarrow> string \<Rightarrow> int"
  mathRandom :: "nat \<Rightarrow> rat"

section \<open>Seeded generator and shuffle\<close>

text \<open>
  A value of \<open>rand\<close> is the closure \<^verbatim>\<open>rand\<close> of the source together with its
  state: the counter \<^verbatim>\<open>t\<close> of \<^verbatim>\<open>rng(seed)\<close>, or the host stream and the number of
  values already drawn from it.
\<close>

datatype rand = Mulberry32 int | MathRandom "nat \<Rightarrow> rat" nat

text \<open>\<^verbatim>\<open>let t = seed >>> 0\<close>\<close>

definition rng :: "int \<Rightarrow> rand" where
  "rng seed = Mulberry32 (uint (word_of_int seed :: 32 word))"

text \<open>
  One call of the closure.  \<^verbatim>\<open>t += 0x6D2B79F5\<close> is an addition of numbers (it
  does not wrap); the bitwise operators and \<^verbatim>\<open>Math.imul\<close> then read \<open>t\<close> modulo
  \<open>2^32\<close>.  \<^verbatim>\<open>r + Math.imul(..)\<close> is again an addition of numbers whose result the
  following \<^verbatim>\<open>^=\<close> reads modulo \<open>2^32\<close>, which is addition of words.
\<close>

definition mulberry32 :: "int \<Rightarrow> rat \<times> int" where
  "mulberry32 t0 =
     (let t = t0 + 0x6D2B79F5;
          w = (word_of_int t :: 32 word);
          r = (w XOR drop_bit 15 w) * (1 OR w);
          r = r XOR (r + (r XOR drop_bit 7 r) * (61 OR r))
      in (of_int (uint (r XOR drop_bit 14 r)) / 4294967296, t))"

fun rand_next :: "rand \<Rightarrow> rat \<times> rand" where
  "rand_next (Mulberry32 t) = (let (v, t') = mulberry32 t in (v, Mulberry32 t'))"
| "rand_next (MathRandom f k) = (frac (f k), MathRandom f (Suc k))"

text \<open>\<^verbatim>\<open>[arr[i], arr[j]] = [arr[j], arr[i]]\<close>\<close>

definition swap :: "nat \<Rightarrow> nat \<Rightarrow> 'a list \<Rightarrow> 'a list" where
  "swap i j arr = arr[i := arr ! j, j := arr ! i]"

text \<open>
  \<^verbatim>\<open>for (let i = arr.length - 1; i > 0; i--) { j = Math.floor(rand() * (i + 1)); swap }\<close>:
  the loop of \<^verbatim>\<open>shuffleInPlace\<close>, which \<^verbatim>\<open>generateGame\<close> repeats inline twice.
  \<open>shuffleFrom i\<close> is the loop from index \<open>i\<close> downwards.
\<close>

fun shuffleFrom :: "nat \<Rightarrow> 'a list \<Rightarrow> rand \<Rightarrow> 'a list \<times> rand" where
  "shuffleFrom 0 arr rand = (arr, rand)"
| "shuffleFrom (Suc i') arr rand =
     (let i = Suc i';
          (v, rand') = rand_next rand;
          j = nat \<lfloor>v * of_int (int i + 1)\<rfloor>
      in shuffleFrom i' (swap i j arr) rand')"

definition shuffleInPlace :: "'a list \<Rightarrow> rand \<Rightarrow> 'a list \<times> rand" where
  "shuffleInPlace arr rand = shuffleFrom (length arr - 1) arr rand"

section \<open>Array.prototype.sort\<close>

text \<open>
  \<^verbatim>\<open>sort(cmp)\<close> is stable (ECMAScript 2019); for a consistent comparator its
  result is the one stable sorted permutation, which insertion from the right
  computes.  A negative or zero \<open>cmp x y\<close> leaves \<open>x\<close> before \<open>y\<close>.
\<close>

fun insert_by :: "('a \<Rightarrow> 'a \<Rightarrow> rat) \<Rightarrow> 'a \<Rightarrow> 'a list \<Rightarrow> 'a list" where
  "insert_by cmp x [] = [x]"
| "insert_by cmp x (y # ys) = (if cmp x y \<le> 0 then x # y # ys else y # insert_by cmp x ys)"

definition sort_by :: "('a \<Rightarrow> 'a \<Rightarrow> rat) \<Rightarrow> 'a list \<Rightarrow> 'a list" where
  "sort_by cmp xs = foldr (insert_by cmp) xs []"

section \<open>Groups\<close>

record group =
  group_id :: string
  members :: "playerWithCH list"
  group_size :: nat
  strength :: rat

text \<open>\<^verbatim>\<open>p.linkGroupId ?? `single:${p.id}`\<close>\<close>

definition gidOf :: "playerWithCH \<Rightarrow> string" where
  "gidOf p = (case linkGroupId p of None \<Rightarrow> ''single:'' @ player_id p | Some l \<Rightarrow> l)"

text \<open>
  \<open>groupsMap\<close> is a \<^verbatim>\<open>Map\<close>, iterated in insertion order: an association list
  with a new key added at the end.  One iteration of the loop over the roster:
\<close>

fun push_member :: "string \<Rightarrow> playerWithCH \<Rightarrow> (string \<times> group) list \<Rightarrow> (string \<times> group) list" where
  "push_member gid p [] = [(gid, \<lparr>group_id = gid, members = [p], group_size = 0, strength = 0\<rparr>)]"
| "push_member gid p ((k, g) # m) =
     (if k = gid then (k, g\<lparr>members := members g @ [p]\<rparr>) # m
      else (k, g) # push_member gid p m)"

definition groupsMap :: "playerWithCH list \<Rightarrow> (string \<times> group) list" where
  "groupsMap enriched = foldl (\<lambda>m p. push_member (gidOf p) p m) [] enriched"

text \<open>\<^verbatim>\<open>for (let i = 0; i < g.members.length; i += 4) chunked.push(g.members.slice(i, i + 4))\<close>\<close>

function chunkFrom :: "nat \<Rightarrow> 'a list \<Rightarrow> 'a list list" where
  "chunkFrom i ms = (if i < length ms then take 4 (drop i ms) # chunkFrom (i + 4) ms else [])"
  by pat_completeness auto
termination
  by (relation "measure (\<lambda>(i, ms). length ms - i)") auto

declare chunkFrom.simps [simp del]

text \<open>Decimal digits of a number, for the template \<^verbatim>\<open>`${g.id}#${idx + 1}`\<close>.\<close>

fun showNat :: "nat \<Rightarrow> string" where
  "showNat n = (if n < 10 then [''0123456789'' ! n] else showNat (n div 10) @ [''0123456789'' ! (n mod 10)])"

declare showNat.simps [simp del]

definition sumCH :: "playerWithCH list \<Rightarrow> int" where
  "sumCH ms = foldl (\<lambda>s m. s + courseHandicap m) 0 ms"

definition chunkGroup :: "group \<Rightarrow> nat \<Rightarrow> playerWithCH list \<Rightarrow> group" where
  "chunkGroup g idx chunk =
     \<lparr>group_id = group_id g @ ''#'' @ showNat (idx + 1),
      members = chunk,
      group_size = length chunk,
      strength = of_int (sumCH chunk) / of_nat (length chunk)\<rparr>"

text \<open>The body of the loop over \<open>groupsMap.values()\<close>: the groups one entry contributes.\<close>

definition groupsOf :: "group \<Rightarrow> group list" where
  "groupsOf g0 =
     (let g = g0\<lparr>group_size := length (members g0)\<rparr>
      in if group_size g > 4 then
           (let chunked = chunkFrom 0 (members g)
            in map (\<lambda>(idx, chunk). chunkGroup g idx chunk) (enumerate 0 chunked))
         else [g\<lparr>strength := of_int (sumCH (members g)) / of_nat (max 1 (length (members g)))\<rparr>])"

definition formGroups :: "playerWithCH list \<Rightarrow> group list" where
  "formGroups enriched = concat (map (\<lambda>(k, g). groupsOf g) (groupsMap enriched))"

section \<open>Teams and settings\<close>

record team =
  team_id :: nat
  players :: "playerWithCH list"
  teamHandicap :: int

text \<open>
  Optional fields are options.  \<open>paidPlaces\<close> is an arbitrary number: the caller
  passes what the user typed, floored at 1 but not rounded.  \<open>randomSeed\<close> is an
  integer seed.
\<close>

record gameSettings =
  entryFeePerPlayer :: rat
  skinsPoolPerPlayer :: "rat option"
  randomSeed :: "int option"
  randomizeTeams :: "bool option"
  paidPlaces :: "rat option"

record payout =
  place :: nat
  amount :: int

record gameResult =
  game_course :: course
  teams :: "team list"
  totalPlayers :: nat
  prizePool :: int
  skinsPool :: int
  payouts :: "payout list"

text \<open>\<^verbatim>\<open>throw new Error(`Unable to place group of size ${g.size} within team capacities`)\<close>\<close>

datatype error = UnableToPlace nat

section \<open>Group ordering\<close>

text \<open>\<^verbatim>\<open>(a, b) => b.size - a.size || a.id.localeCompare(b.id)\<close>\<close>

definition cmpRandomized :: "host \<Rightarrow> group \<Rightarrow> group \<Rightarrow> rat" where
  "cmpRandomized h a b =
     (if int (group_size b) - int (group_size a) \<noteq> 0
      then of_int (int (group_size b) - int (group_size a))
      else of_int (localeCompare h (group_id a) (group_id b)))"

definition cmpBalanced :: "host \<Rightarrow> group \<Rightarrow> group \<Rightarrow> rat" where
  "cmpBalanced h a b =
     (if group_size a \<noteq> group_size b then of_int (int (group_size b) - int (group_size a))
      else if strength a \<noteq> strength b then strength a - strength b
      else of_int (localeCompare h (group_id a) (group_id b)))"

text \<open>\<^verbatim>\<open>typeof settings.randomSeed === 'number' ? rng(settings.randomSeed) : Math.random\<close>;
  \<open>ambient\<close> is \<^verbatim>\<open>Math.random\<close> in its current state.\<close>

definition pickRand :: "gameSettings \<Rightarrow> rand \<Rightarrow> rand" where
  "pickRand settings ambient = (case randomSeed settings of Some seed \<Rightarrow> rng seed | None \<Rightarrow> ambient)"

text \<open>The ordered groups, and \<^verbatim>\<open>Math.random\<close> as the ordering leaves it.\<close>

definition sortedGroups :: "host \<Rightarrow> gameSettings \<Rightarrow> group list \<Rightarrow> rand \<Rightarrow> group list \<times> rand" where
  "sortedGroups h settings groups ambient =
     (if randomizeTeams settings = Some True then
        (let rand = pickRand settings ambient;
             (shuffled, rand') = shuffleInPlace groups rand
         in (sort_by (cmpRandomized h) shuffled,
             case randomSeed settings of Some seed \<Rightarrow> ambient | None \<Rightarrow> rand'))
      else (sort_by (cmpBalanced h) groups, ambient))"

section \<open>Assignment\<close>

text \<open>The state of the assignment loops: \<open>teamsInit\<close> and \<open>remaining\<close>.\<close>

type_synonym assignment = "team list \<times> nat list"

text \<open>\<^verbatim>\<open>teamsInit[idx].players.push(...g.members); remaining[idx] -= g.size\<close>\<close>

definition placeAt :: "nat \<Rightarrow> group \<Rightarrow> assignment \<Rightarrow> assignment" where
  "placeAt idx g st =
     (case st of (teamsInit, remaining) \<Rightarrow>
        (teamsInit[idx := (teamsInit ! idx)\<lparr>players := players (teamsInit ! idx) @ members g\<rparr>],
         remaining[idx := remaining ! idx - group_size g]))"

text \<open>\<^verbatim>\<open>for (let k = 0; k < teamsInit.length; k++) if (remaining[k] >= g.size) { .. break }\<close>\<close>

definition firstFit :: "nat \<Rightarrow> nat list \<Rightarrow> nat \<Rightarrow> nat option" where
  "firstFit n remaining gsize = find (\<lambda>k. remaining ! k \<ge> gsize) [0..<n]"

text \<open>
  The scan for the largest remaining capacity; \<open>bestIdx = -1\<close> is \<open>None\<close>,
  \<open>bestRemain\<close> starts at \<open>-1\<close>.
\<close>

definition bestFit :: "nat \<Rightarrow> nat list \<Rightarrow> nat \<Rightarrow> nat option" where
  "bestFit n remaining gsize =
     fst (foldl (\<lambda>(bestIdx, bestRemain) k.
                   let rem = remaining ! k
                   in if rem \<ge> gsize \<and> int rem > bestRemain then (Some k, int rem)
                      else (bestIdx, bestRemain))
                (None, - 1 :: int) [0..<n])"

definition placeBalanced :: "group \<Rightarrow> assignment \<Rightarrow> error + assignment" where
  "placeBalanced g st =
     (let n = length (fst st);
          remaining = snd st;
          bestIdx = bestFit n remaining (group_size g);
          bestIdx = (case bestIdx of None \<Rightarrow> firstFit n remaining (group_size g) | Some k \<Rightarrow> Some k)
      in case bestIdx of
           None \<Rightarrow> Inl (UnableToPlace (group_size g))
         | Some k \<Rightarrow> Inr (placeAt k g st))"

fun assignBalanced :: "group list \<Rightarrow> assignment \<Rightarrow> error + assignment" where
  "assignBalanced [] st = Inr st"
| "assignBalanced (g # gs) st =
     (case placeBalanced g st of Inl e \<Rightarrow> Inl e | Inr st' \<Rightarrow> assignBalanced gs st')"

definition placeRandomized :: "group \<Rightarrow> assignment \<Rightarrow> rand \<Rightarrow> error + assignment \<times> rand" where
  "placeRandomized g st rand =
     (let n = length (fst st);
          remaining = snd st;
          (order, rand') = shuffleInPlace [0..<n] rand;
          placed = find (\<lambda>idx. remaining ! idx \<ge> group_size g) order;
          placed = (case placed of None \<Rightarrow> firstFit n remaining (group_size g) | Some k \<Rightarrow> Some k)
      in case placed of
           None \<Rightarrow> Inl (UnableToPlace (group_size g))
         | Some k \<Rightarrow> Inr (placeAt k g st, rand'))"

fun assignRandomized :: "group list \<Rightarrow> assignment \<Rightarrow> rand \<Rightarrow> error + assignment" where
  "assignRandomized [] st rand = Inr st"
| "assignRandomized (g # gs) st rand =
     (case placeRandomized g st rand of
        Inl e \<Rightarrow> Inl e
      | Inr (st', rand') \<Rightarrow> assignRandomized gs st' rand')"

section \<open>Final team order\<close>

text \<open>\<^verbatim>\<open>t.teamHandicap = t.players.reduce((sum, p) => sum + p.courseHandicap, 0)\<close>\<close>

definition withHandicap :: "team \<Rightarrow> team" where
  "withHandicap t = t\<lparr>teamHandicap := sumCH (players t)\<rparr>"

definition cmpTeams :: "team \<Rightarrow> team \<Rightarrow> rat" where
  "cmpTeams a b =
     (let sizeDiff = int (length (players a)) - int (length (players b))
      in if sizeDiff \<noteq> 0 then of_int sizeDiff
         else of_int (teamHandicap a - teamHandicap b))"

text \<open>\<^verbatim>\<open>.map((t, idx) => ({ ...t, id: idx + 1 }))\<close>\<close>

definition renumber :: "team list \<Rightarrow> team list" where
  "renumber ts = map (\<lambda>(idx, t). t\<lparr>team_id := idx + 1\<rparr>) (enumerate 0 ts)"

definition sortedTeams :: "team list \<Rightarrow> team list" where
  "sortedTeams ts = renumber (sort_by cmpTeams ts)"

section \<open>Payout allocator\<close>

text \<open>
  The loop of the \<^verbatim>\<open>default\<close> branch:
  \<^verbatim>\<open>for (let i = 0; i < n; i++) { v = i === n - 1 ? remaining : Math.max(0.05, share);
  ratios.push(v); remaining -= v; share *= 0.7 }\<close>.
  The counter \<open>i\<close> is a whole number; the bound \<open>n\<close> need not be.
\<close>

function taperLoop :: "rat \<Rightarrow> int \<Rightarrow> rat \<Rightarrow> rat \<Rightarrow> rat list \<Rightarrow> rat list" where
  "taperLoop n i remaining share ratios =
     (if of_int i < n then
        (let v = (if of_int i = n - 1 then remaining else max (5 / 100) share)
         in taperLoop n (i + 1) (remaining - v) (share * (7 / 10)) (ratios @ [v]))
      else ratios)"
  by pat_completeness auto
termination
proof (relation "measure (\<lambda>(n, i, remaining, share, ratios). nat (\<lceil>n\<rceil> - i))")
  show "wf (measure (\<lambda>(n, i, remaining, share, ratios). nat (\<lceil>n\<rceil> - i)))"
    by simp
next
  fix n :: rat and i :: int and remaining share x :: rat and ratios :: "rat list"
  assume "of_int i < n"
  then have "i < \<lceil>n\<rceil>"
    by (simp add: less_ceiling_iff)
  then show "((n, i + 1, remaining - x, share * (7 / 10), ratios @ [x]), n, i, remaining, share, ratios)
      \<in> measure (\<lambda>(n, i, remaining, share, ratios). nat (\<lceil>n\<rceil> - i))"
    by simp
qed

declare taperLoop.simps [simp del]

text \<open>
  \<open>places\<close> is \<^verbatim>\<open>Math.max(1, settings.paidPlaces ?? 3)\<close>, any number from 1 up.
  The \<^verbatim>\<open>switch (n)\<close> compares with \<^verbatim>\<open>===\<close>: a fractional \<open>n\<close> matches no
  \<^verbatim>\<open>case\<close> and reaches \<^verbatim>\<open>default\<close>.
\<close>

definition basePayoutRatios :: "rat \<Rightarrow> nat \<Rightarrow> rat list" where
  "basePayoutRatios places numTeams =
     (let n = max 1 (min places (of_nat numTeams))
      in if n = 1 then [1]
         else if n = 2 then [6 / 10, 4 / 10]
         else if n = 3 then [5 / 10, 3 / 10, 2 / 10]
         else if n = 4 then [4 / 10, 3 / 10, 2 / 10, 1 / 10]
         else if n = 5 then [35 / 100, 25 / 100, 18 / 100, 12 / 100, 10 / 100]
         else
           (let ratios = taperLoop n 0 1 (35 / 100) [];
                sum = foldl (+) 0 ratios
            in map (\<lambda>r. r / sum) ratios))"

text \<open>
  One pass of the inner \<^verbatim>\<open>for\<close> of \<^verbatim>\<open>tryRound\<close> over the places not yet visited;
  it returns the places, the difference left and the flag \<^verbatim>\<open>adjusted\<close>.
\<close>

fun adjustPass :: "int \<Rightarrow> int \<Rightarrow> int list \<Rightarrow> int \<Rightarrow> int list \<times> int \<times> bool" where
  "adjustPass step dir [] diff = ([], diff, False)"
| "adjustPass step dir (x # xs) diff =
     (if diff \<ge> step then
        (let next = x + dir * step
         in if dir > 0 \<or> (dir < 0 \<and> next \<ge> 0) then
              (case adjustPass step dir xs (diff - step) of (ys, d, a) \<Rightarrow> (next # ys, d, True))
            else
              (case adjustPass step dir xs diff of (ys, d, a) \<Rightarrow> (x # ys, d, a)))
      else (x # xs, diff, False))"

lemma adjustPass_diff: "0 < step \<Longrightarrow> adjustPass step dir xs diff = (ys, d, True) \<Longrightarrow> d < diff"
proof (induction xs arbitrary: diff ys d)
  case Nil
  then show ?case by simp
next
  case (Cons x xs)
  show ?case
  proof (cases "diff \<ge> step")
    case False
    with Cons.prems show ?thesis by simp
  next
    case True
    note ge = this
    show ?thesis
    proof (cases "dir > 0 \<or> (dir < 0 \<and> x + dir * step \<ge> 0)")
      case True
      obtain ys' d' a' where r: "adjustPass step dir xs (diff - step) = (ys', d', a')"
        by (cases "adjustPass step dir xs (diff - step)") auto
      have "d' \<le> diff - step"
      proof (cases a')
        case True
        with Cons.IH [OF Cons.prems(1)] r show ?thesis by fastforce
      next
        case False
        have "\<And>s ds zs e ws f. adjustPass s ds zs e = (ws, f, False) \<Longrightarrow> f = e"
        proof -
          fix s ds zs e ws f
          show "adjustPass s ds zs e = (ws, f, False) \<Longrightarrow> f = e"
            by (induction zs arbitrary: e ws f) (auto simp: Let_def split: if_splits prod.splits)
        qed
        with r False show ?thesis by fastforce
      qed
      with Cons.prems ge True r show ?thesis by (auto simp: Let_def)
    next
      case False
      obtain ys' d' a' where r: "adjustPass step dir xs diff = (ys', d', a')"
        by (cases "adjustPass step dir xs diff") auto
      with Cons.prems ge False have "a' = True" "d' = d" by (auto simp: Let_def)
      with Cons.IH [OF Cons.prems(1)] r show ?thesis by fastforce
    qed
  qed
qed

text \<open>
  The \<^verbatim>\<open>while (diff >= step)\<close> loop.  \<open>step\<close> is 10 or 5 at the two call sites;
  the test \<open>0 < step\<close> is what makes every pass that adjusts decrease \<open>diff\<close>.
\<close>

function adjustLoop :: "int \<Rightarrow> int \<Rightarrow> int list \<Rightarrow> int \<Rightarrow> int list" where
  "adjustLoop step dir rounded diff =
     (if 0 < step \<and> diff \<ge> step then
        (case adjustPass step dir rounded diff of
           (rounded', diff', adjusted) \<Rightarrow>
             if \<not> adjusted then rounded' else adjustLoop step dir rounded' diff')
      else rounded)"
  by pat_completeness auto
termination
  apply (relation "measure (\<lambda>(step, dir, rounded, diff). nat diff)")
   apply simp
  apply (auto dest: adjustPass_diff [OF _ sym])
  done

declare adjustLoop.simps [simp del]

text \<open>\<^verbatim>\<open>for (let i = 1; ..) if (rounded[i] > rounded[i - 1]) rounded[i] = rounded[i - 1]\<close>;
  \<open>clampFrom prev\<close> is the loop with \<open>prev\<close> the value already written at \<open>i - 1\<close>.\<close>

fun clampFrom :: "int \<Rightarrow> int list \<Rightarrow> int list" where
  "clampFrom prev [] = []"
| "clampFrom prev (x # xs) = (let x' = (if x > prev then prev else x) in x' # clampFrom x' xs)"

definition enforceNonIncreasing :: "int list \<Rightarrow> int list" where
  "enforceNonIncreasing rounded = (case rounded of [] \<Rightarrow> [] | x # xs \<Rightarrow> x # clampFrom x xs)"

text \<open>The closure \<^verbatim>\<open>tryRound\<close>, with the \<open>values\<close> and \<open>total\<close> it captures.\<close>

definition tryRound :: "rat list \<Rightarrow> int \<Rightarrow> int \<Rightarrow> int list \<times> int" where
  "tryRound values tot step =
     (let rounded = map (\<lambda>v. max 0 (round (v / of_int step) * step)) values;
          diff = tot - sum_list rounded;
          dir = sgn diff;
          diff = \<bar>diff\<bar>;
          rounded = adjustLoop step dir rounded diff;
          rounded = enforceNonIncreasing rounded
      in (rounded, sum_list rounded))"

definition roundPayoutsPrefer10Then5 :: "rat list \<Rightarrow> int \<Rightarrow> int list" where
  "roundPayoutsPrefer10Then5 values tot =
     (let v10 = tryRound values tot 10
      in if snd v10 = tot then fst v10
         else
           (let v5 = tryRound values tot 5
            in if snd v5 \<noteq> tot then
                 (let rounded = fst v5;
                      diff = tot - snd v5;
                      rounded = (if length rounded > 0 then rounded[0 := rounded ! 0 + diff] else rounded)
                  in enforceNonIncreasing rounded)
               else fst v5))"

section \<open>generateGame\<close>

definition teamsInit :: "nat list \<Rightarrow> team list" where
  "teamsInit teamSizes = map (\<lambda>idx. \<lparr>team_id = idx + 1, players = [], teamHandicap = 0\<rparr>) [0..<length teamSizes]"

definition mkPayouts :: "int list \<Rightarrow> payout list" where
  "mkPayouts finalAmounts = map (\<lambda>(i, amt). \<lparr>place = i + 1, amount = amt\<rparr>) (enumerate 0 finalAmounts)"

text \<open>
  The first part of \<^verbatim>\<open>generateGame\<close>, from the size plan to the end of the
  assignment loops: the filled teams and the capacities left, or the error thrown.
\<close>

definition assignTeams :: "host \<Rightarrow> gameSettings \<Rightarrow> playerWithCH list \<Rightarrow> error + assignment" where
  "assignTeams h settings enriched =
     (let teamSizes = determineTeamSizes (length enriched);
          groups = formGroups enriched;
          (sorted, ambient) = sortedGroups h settings groups (MathRandom (mathRandom h) 0);
          st = (teamsInit teamSizes, teamSizes)
      in if randomizeTeams settings = Some True
         then assignRandomized sorted st (pickRand settings ambient)
         else assignBalanced sorted st)"

definition generateGame :: "host \<Rightarrow> course \<Rightarrow> player list \<Rightarrow> gameSettings \<Rightarrow> error + gameResult" where
  "generateGame h c ps settings =
     (let enriched = map (computePlayerCH c) ps
      in case assignTeams h settings enriched of
           Inl e \<Rightarrow> Inl e
         | Inr (ts, remaining) \<Rightarrow>
             (let sortedTs = sortedTeams (map withHandicap ts);
                  prizePool = max 0 (round (entryFeePerPlayer settings * of_nat (length enriched)));
                  skinsPool = max 0 (round ((case skinsPoolPerPlayer settings of None \<Rightarrow> 0 | Some f \<Rightarrow> f)
                                             * of_nat (length enriched)));
                  places = max 1 (case paidPlaces settings of None \<Rightarrow> 3 | Some n \<Rightarrow> n);
                  ratios = basePayoutRatios places (length sortedTs);
                  rawAmounts = map (\<lambda>r. r * of_int prizePool) ratios;
                  finalAmounts = roundPayoutsPrefer10Then5 rawAmounts prizePool
              in Inr \<lparr>game_course = c, teams = sortedTs, totalPlayers = length enriched,
                      prizePool = prizePool, skinsPool = skinsPool,
                      payouts = mkPayouts finalAmounts\<rparr>))"

section \<open>Sample inputs\<close>

definition sampleCourse :: course where
  "sampleCourse = \<lparr>course_name = ''Home'', par = 72,
     slopes = \<lparr>white = Some 113, blue = Some 120, red = None\<rparr>,
     course_players = []\<rparr>"

text \<open>A collation for the sample host: strings compared by code unit.\<close>

fun compareCodeUnits :: "string \<Rightarrow> string \<Rightarrow> int" where
  "compareCodeUnits [] [] = 0"
| "compareCodeUnits [] (y # ys) = - 1"
| "compareCodeUnits (x # xs) [] = 1"
| "compareCodeUnits (x # xs) (y # ys) =
     (if (of_char x :: nat) < of_char y then - 1
      else if (of_char y :: nat) < of_char x then 1
      else compareCodeUnits xs ys)"

definition sampleHost :: host where
  "sampleHost = \<lparr>localeCompare = compareCodeUnits, mathRandom = (\<lambda>k. of_nat k / 7)\<rparr>"

definition mkPlayer :: "string \<Rightarrow> rat \<Rightarrow> string option \<Rightarrow> player" where
  "mkPlayer i hi l =
     \<lparr>player_id = i, firstName = i, lastName = None, handicapIndex = hi, tee = White, linkGroupId = l\<rparr>"

definition mkSettings :: "rat \<Rightarrow> bool option \<Rightarrow> int option \<Rightarrow> rat option \<Rightarrow> gameSettings" where
  "mkSettings fee rnd seed pp =
     \<lparr>entryFeePerPlayer = fee, skinsPoolPerPlayer = None, randomSeed = seed,
      randomizeTeams = rnd, paidPlaces = pp\<rparr>"

text \<open>Seven unlinked players with handicap indices 5 to 11.\<close>

definition sevenPlayers :: "player list" where
  "sevenPlayers =
     [mkPlayer ''a'' 5 None, mkPlayer ''b'' 6 None, mkPlayer ''c'' 7 None, mkPlayer ''d'' 8 None,
      mkPlayer ''e'' 9 None, mkPlayer ''f'' 10 None, mkPlayer ''g'' 11 None]"

text \<open>Six players, the first four linked as one group.\<close>

definition sixLinked :: "player list" where
  "sixLinked =
     [mkPlayer ''a'' 5 (Some ''grp1''), mkPlayer ''b'' 6 (Some ''grp1''),
      mkPlayer ''c'' 7 (Some ''grp1''), mkPlayer ''d'' 8 (Some ''grp1''),
      mkPlayer ''e'' 9 None, mkPlayer ''f'' 10 None]"

text \<open>Six players linked as three pairs.\<close>

definition sixPairs :: "player list" where
  "sixPairs =
     [mkPlayer ''a'' 5 (Some ''grp1''), mkPlayer ''b'' 6 (Some ''grp1''),
      mkPlayer ''c'' 7 (Some ''grp2''), mkPlayer ''d'' 8 (Some ''grp2''),
      mkPlayer ''e'' 9 (Some ''grp3''), mkPlayer ''f'' 10 (Some ''grp3'')]"

text \<open>Ten players: a link group of four, one of three, a pair and one unlinked player.\<close>

definition tenLinked :: "player list" where
  "tenLinked =
     [mkPlayer ''a'' 5 (Some ''grp1''), mkPlayer ''b'' 6 (Some ''grp1''),
      mkPlayer ''c'' 7 (Some ''grp1''), mkPlayer ''d'' 8 (Some ''grp1''),
      mkPlayer ''e'' 9 (Some ''grp2''), mkPlayer ''f'' 10 (Some ''grp2''),
      mkPlayer ''g'' 11 (Some ''grp2''),
      mkPlayer ''h'' 12 (Some ''grp3''), mkPlayer ''i'' 13 (Some ''grp3''),
      mkPlayer ''j'' 14 None]"

text \<open>Sample calls: the balanced policy, and the randomized policy with a seed.\<close>

definition sevenBalanced :: "error + gameResult" where
  "sevenBalanced = generateGame sampleHost sampleCourse sevenPlayers (mkSettings 20 None None None)"

definition sevenSeeded :: "error + gameResult" where
  "sevenSeeded = generateGame sampleHost sampleCourse sevenPlayers (mkSettings 20 (Some True) (Some 42) None)"

definition tenBalanced :: "error + gameResult" where
  "tenBalanced = generateGame sampleHost sampleCourse tenLinked (mkSettings 20 None None None)"

definition tenSeeded :: "error + gameResult" where
  "tenSeeded = generateGame sampleHost sampleCourse tenLinked (mkSettings 20 (Some True) (Some 42) None)"

text \<open>Five players linked as one group, and one unlinked player, enriched.\<close>

definition fiveLinked :: "playerWithCH list" where
  "fiveLinked = map (computePlayerCH sampleCourse)
     [mkPlayer ''a'' 5 (Some ''grp1''), mkPlayer ''b'' 6 (Some ''grp1''),
      mkPlayer ''c'' 7 (Some ''grp1''), mkPlayer ''d'' 8 (Some ''grp1''),
      mkPlayer ''e'' 9 (Some ''grp1''), mkPlayer ''f'' 10 None]"

text \<open>Twenty-eight unlinked players: seven teams of four.\<close>

definition twentyEight :: "player list" where
  "twentyEight = map (\<lambda>i. mkPlayer (showNat i) (of_nat i) None) [0..<28]"

text \<open>Nine unlinked players: three teams of three.\<close>

definition ninePlayers :: "player list" where
  "ninePlayers = map (\<lambda>i. mkPlayer (showNat i) (of_nat i) None) [0..<9]"

text \<open>The same nine players with \<open>paidPlaces = 2.5\<close>.\<close>

definition nineFractional :: "error + gameResult" where
  "nineFractional = generateGame sampleHost sampleCourse ninePlayers (mkSettings 20 None None (Some (5 / 2)))"

text \<open>What the theorems below read off a result: team sizes, prize pool, payout amounts.\<close>

definition summary :: "error + gameResult \<Rightarrow> (nat list \<times> int \<times> int list) option" where
  "summary r =
     (case r of
        Inl e \<Rightarrow> None
      | Inr g \<Rightarrow> Some (map (\<lambda>t. length (players t)) (teams g), prizePool g, map amount (payouts g)))"

section \<open>Predicates of the statements and proofs\<close>

text \<open>\<open>clamp x lo hi\<close> of the specification: \<open>x\<close> brought into \<open>[lo, hi]\<close>.\<close>

definition clamp :: "rat \<Rightarrow> rat \<Rightarrow> rat \<Rightarrow> rat" where
  "clamp x lo hi = min hi (max lo x)"

text \<open>The order the comparator \<open>cmpTeams\<close> stands for.\<close>

definition teamBefore :: "team \<Rightarrow> team \<Rightarrow> bool" where
  "teamBefore a b \<longleftrightarrow>
     length (players a) < length (players b) \<or>
     length (players a) = length (players b) \<and> teamHandicap a \<le> teamHandicap b"

text \<open>
  \<open>fits sizes st\<close>: the state has one team and one capacity per planned size, and
  in every team the players placed and the capacity left add up to the planned size.
\<close>

definition fits :: "nat list \<Rightarrow> assignment \<Rightarrow> bool" where
  "fits sizes st \<longleftrightarrow>
     length (fst st) = length sizes \<and> length (snd st) = length sizes \<and>
     (\<forall>k < length sizes. length (players (fst st ! k)) + snd st ! k = sizes ! k)"

text \<open>\<open>holds g ts\<close>: the members of \<open>g\<close> stand together in one team of \<open>ts\<close>.\<close>

definition holds :: "group \<Rightarrow> team list \<Rightarrow> bool" where
  "holds g ts \<longleftrightarrow> (\<exists>t \<in> set ts. \<exists>pre post. players t = pre @ members g @ post)"

text \<open>
  \<open>placed sizes gs st\<close>: what holds of a state \<open>st\<close> reached from the initial one by
  placing the groups \<open>gs\<close>.
\<close>

definition placed :: "nat list \<Rightarrow> group list \<Rightarrow> assignment \<Rightarrow> bool" where
  "placed sizes gs st \<longleftrightarrow>
     fits sizes st \<and>
     mset (concat (map players (fst st))) = mset (concat (map members gs)) \<and>
     (\<forall>g \<in> set gs. holds g (fst st))"

text \<open>
  \<open>grouped m xs\<close>: the map \<open>m\<close> has one entry for every key of the roster \<open>xs\<close>, and
  the entry of a key holds the players with that key, in roster order.
\<close>

definition grouped :: "(string \<times> group) list \<Rightarrow> playerWithCH list \<Rightarrow> bool" where
  "grouped m xs \<longleftrightarrow>
     distinct (map fst m) \<and> fst ` set m = gidOf ` set xs \<and>
     (\<forall>(k, g) \<in> set m. group_id g = k \<and> members g = filter (\<lambda>p. gidOf p = k) xs)"

text \<open>\<open>good step xs\<close>: every amount is a non-negative multiple of the step.\<close>

definition good :: "int \<Rightarrow> int list \<Rightarrow> bool" where
  "good step xs \<longleftrightarrow> (\<forall>x \<in> set xs. 0 \<le> x \<and> step dvd x)"

section \<open>Team-size plan\<close>

text \<open>
  Claim C3.  For every player count \<open>n \<ge> 1\<close> the plan \<open>determineTeamSizes n\<close> sums
  to \<open>n\<close>; for \<open>n \<ge> 5\<close> every size is 2, 3 or 4; for \<open>n \<le> 4\<close> the plan is the single
  team \<open>[n]\<close>; no size is 5; a size of 2 occurs only for \<open>n = 2\<close> and \<open>n = 5\<close>; and
  the documented cases hold: 5 gives \<open>[3,2]\<close>, 6 gives \<open>[3,3]\<close>, 9 gives \<open>[3,3,3]\<close>,
  10 gives \<open>[4,3,3]\<close>.
\<close>

theorem determineTeamSizes_plan:
  "1 \<le> n \<Longrightarrow>
     sum_list (determineTeamSizes n) = n
   \<and> (5 \<le> n \<longrightarrow> set (determineTeamSizes n) \<subseteq> {2, 3, 4})
   \<and> (n \<le> 4 \<longrightarrow> determineTeamSizes n = [n])
   \<and> 5 \<notin> set (determineTeamSizes n)
   \<and> (2 \<in> set (determineTeamSizes n) \<longrightarrow> n = 2 \<or> n = 5)
   \<and> determineTeamSizes 5 = [3, 2]
   \<and> determineTeamSizes 6 = [3, 3]
   \<and> determineTeamSizes 9 = [3, 3, 3]
   \<and> determineTeamSizes 10 = [4, 3, 3]"
proof -
  have s: "sum_list (determineTeamSizes n) = n"
    by (auto simp: determineTeamSizes_def Let_def sum_list_replicate)
  have r: "5 \<le> n \<longrightarrow> set (determineTeamSizes n) \<subseteq> {2, 3, 4}"
    by (auto simp: determineTeamSizes_def Let_def)
  have o: "n \<le> 4 \<longrightarrow> determineTeamSizes n = [n]"
    by (simp add: determineTeamSizes_def)
  have f: "5 \<notin> set (determineTeamSizes n)"
    by (auto simp: determineTeamSizes_def Let_def)
  have t: "2 \<in> set (determineTeamSizes n) \<longrightarrow> n = 2 \<or> n = 5"
    by (auto simp: determineTeamSizes_def Let_def split: if_splits)
  have c: "determineTeamSizes 5 = [3, 2]" "determineTeamSizes 6 = [3, 3]"
    "determineTeamSizes 9 = [3, 3, 3]" "determineTeamSizes 10 = [4, 3, 3]"
    by (simp_all add: determineTeamSizes_def Let_def)
  from s r o f t c show ?thesis by blast
qed

theorem determineTeamSizes_plan_witness:
  "sum_list (determineTeamSizes 11) = 11 \<and> set (determineTeamSizes 11) \<subseteq> {2, 3, 4}
   \<and> 5 \<notin> set (determineTeamSizes 11) \<and> 2 \<notin> set (determineTeamSizes 11)
   \<and> determineTeamSizes 3 = [3]"
  using determineTeamSizes_plan [of 11] determineTeamSizes_plan [of 3] by auto

section \<open>Course handicap\<close>





section \<open>Empty roster\<close>

text \<open>
  The claim that an empty roster gives zero teams fails: the plan for 0 players
  is \<open>[0]\<close>, so the result has one team, which has no players.
\<close>

theorem generateGame_empty_counterexample:
  "generateGame sampleHost sampleCourse [] (mkSettings 20 None None None) =
     Inr \<lparr>game_course = sampleCourse,
          teams = [\<lparr>team_id = 1, players = [], teamHandicap = 0\<rparr>],
          totalPlayers = 0, prizePool = 0, skinsPool = 0,
          payouts = [\<lparr>place = 1, amount = 0\<rparr>]\<rparr>"
  by code_simp

text \<open>
  Claim C6, amended.  For every host, course and settings, \<open>generateGame\<close> on
  the empty roster does not fail and returns exactly one team, with id 1, no
  players and team handicap 0, a prize pool of 0, a skins pool of 0 and the
  single payout of 0 for place 1.
\<close>

theorem generateGame_empty_roster:
  "generateGame h c [] settings =
     Inr \<lparr>game_course = c, teams = [\<lparr>team_id = 1, players = [], teamHandicap = 0\<rparr>],
          totalPlayers = 0, prizePool = 0, skinsPool = 0,
          payouts = [\<lparr>place = 1, amount = 0\<rparr>]\<rparr>"
proof -
  have p: "basePayoutRatios (max 1 (case paidPlaces settings of None \<Rightarrow> 3 | Some n \<Rightarrow> n)) (Suc 0) = [1]"
    by (simp add: basePayoutRatios_def Let_def)
  have r: "roundPayoutsPrefer10Then5 [0] 0 = [0]"
    by (simp add: roundPayoutsPrefer10Then5_def tryRound_def Let_def enforceNonIncreasing_def
        adjustLoop.simps)
  have g: "formGroups [] = []"
    by (simp add: formGroups_def groupsMap_def)
  have t: "sortedTeams [withHandicap \<lparr>team_id = Suc 0, players = [], teamHandicap = 0\<rparr>]
      = [\<lparr>team_id = 1, players = [], teamHandicap = 0\<rparr>]"
    by (simp add: sortedTeams_def renumber_def sort_by_def withHandicap_def sumCH_def)
  show ?thesis
    by (simp add: generateGame_def assignTeams_def Let_def determineTeamSizes_def g
        sortedGroups_def shuffleInPlace_def sort_by_def teamsInit_def p r t mkPayouts_def
        split: prod.splits)
qed

section \<open>Determinism\<close>

lemma cmpRandomized_host [simp]: "cmpRandomized (h\<lparr>mathRandom := f\<rparr>) = cmpRandomized h"
  by (intro ext) (simp add: cmpRandomized_def)

lemma cmpBalanced_host [simp]: "cmpBalanced (h\<lparr>mathRandom := f\<rparr>) = cmpBalanced h"
  by (intro ext) (simp add: cmpBalanced_def)

lemma seeded_ignores_ambient:
  "randomizeTeams s = Some True \<Longrightarrow> randomSeed s = Some seed \<Longrightarrow>
   generateGame (h\<lparr>mathRandom := f\<rparr>) c ps s = generateGame h c ps s"
  by (simp add: generateGame_def assignTeams_def sortedGroups_def pickRand_def Let_def
      split: prod.splits sum.splits)

lemma balanced_ignores_ambient:
  "randomizeTeams s \<noteq> Some True \<Longrightarrow>
   generateGame (h\<lparr>mathRandom := f\<rparr>) c ps (s\<lparr>randomSeed := x\<rparr>) = generateGame h c ps s"
  by (simp add: generateGame_def assignTeams_def sortedGroups_def Let_def
      split: prod.splits sum.splits)

text \<open>
  Claim C4.  Two calls with the same course, roster and settings differ only in
  what \<^verbatim>\<open>Math.random\<close> would return, the one input of a call that is not an
  argument.  With \<open>randomizeTeams\<close> true and a seed supplied the whole result
  (teams, their order, payouts, or the failure) is the same for any two states
  \<open>f\<close> and \<open>g\<close> of \<^verbatim>\<open>Math.random\<close>: the generator is built from the seed inside the
  call.  With \<open>randomizeTeams\<close> false or unset the result is the same for any two
  states of \<^verbatim>\<open>Math.random\<close> and any two values \<open>x\<close> and \<open>y\<close> of \<open>randomSeed\<close>,
  present or absent.
\<close>

theorem generateGame_deterministic:
  "(randomizeTeams s = Some True \<and> randomSeed s \<noteq> None \<longrightarrow>
      generateGame (h\<lparr>mathRandom := f\<rparr>) c ps s = generateGame (h\<lparr>mathRandom := g\<rparr>) c ps s)
   \<and> (randomizeTeams s \<noteq> Some True \<longrightarrow>
      generateGame (h\<lparr>mathRandom := f\<rparr>) c ps (s\<lparr>randomSeed := x\<rparr>)
        = generateGame (h\<lparr>mathRandom := g\<rparr>) c ps (s\<lparr>randomSeed := y\<rparr>))"
  using seeded_ignores_ambient [where s = s and h = h and f = f and c = c and ps = ps]
    seeded_ignores_ambient [where s = s and h = h and f = g and c = c and ps = ps]
    balanced_ignores_ambient [where s = s and h = h and f = f and c = c and ps = ps and x = x]
    balanced_ignores_ambient [where s = s and h = h and f = g and c = c and ps = ps and x = y]
  by auto

theorem generateGame_deterministic_witness:
  "generateGame (sampleHost\<lparr>mathRandom := (\<lambda>k. 0)\<rparr>) sampleCourse sevenPlayers
       (mkSettings 20 (Some True) (Some 42) None)
     = generateGame (sampleHost\<lparr>mathRandom := (\<lambda>k. 1 / 3)\<rparr>) sampleCourse sevenPlayers
       (mkSettings 20 (Some True) (Some 42) None)
   \<and> generateGame (sampleHost\<lparr>mathRandom := (\<lambda>k. 0)\<rparr>) sampleCourse sevenPlayers
       ((mkSettings 20 (Some False) None None)\<lparr>randomSeed := Some 1\<rparr>)
     = generateGame (sampleHost\<lparr>mathRandom := (\<lambda>k. 1 / 3)\<rparr>) sampleCourse sevenPlayers
       ((mkSettings 20 (Some False) None None)\<lparr>randomSeed := None\<rparr>)"
  using generateGame_deterministic [where s = "mkSettings 20 (Some True) (Some 42) None"
      and h = sampleHost and f = "\<lambda>k. 0" and g = "\<lambda>k. 1 / 3" and c = sampleCourse
      and ps = sevenPlayers]
    generateGame_deterministic [where s = "mkSettings 20 (Some False) None None"
      and h = sampleHost and f = "\<lambda>k. 0" and g = "\<lambda>k. 1 / 3" and c = sampleCourse
      and ps = sevenPlayers and x = "Some 1" and y = None]
  by (simp add: mkSettings_def)

section \<open>Sorting and shuffling permute\<close>

lemma mset_insert_by: "mset (insert_by cmp x ys) = add_mset x (mset ys)"
  by (induction ys) auto

lemma mset_sort_by: "mset (sort_by cmp xs) = mset xs"
  unfolding sort_by_def by (induction xs) (auto simp: mset_insert_by)

lemma set_sort_by: "set (sort_by cmp xs) = set xs"
  using mset_sort_by [of cmp xs] by (metis set_mset_mset)

lemma length_sort_by: "length (sort_by cmp xs) = length xs"
  using mset_sort_by [of cmp xs] by (metis size_mset)

lemma set_insert_by: "set (insert_by cmp x ys) = insert x (set ys)"
  using mset_insert_by [of cmp x ys] by (metis set_mset_mset set_mset_add_mset_insert)

lemma sorted_insert_by:
  assumes tot: "\<And>a b. cmp a b \<le> 0 \<or> cmp b a \<le> 0"
    and tr: "\<And>a b c. cmp a b \<le> 0 \<Longrightarrow> cmp b c \<le> 0 \<Longrightarrow> cmp a c \<le> 0"
  shows "sorted_wrt (\<lambda>a b. cmp a b \<le> 0) ys \<Longrightarrow> sorted_wrt (\<lambda>a b. cmp a b \<le> 0) (insert_by cmp x ys)"
proof (induction ys)
  case Nil
  then show ?case by simp
next
  case (Cons y ys)
  show ?case
  proof (cases "cmp x y \<le> 0")
    case True
    with Cons.prems tr show ?thesis by auto
  next
    case False
    with tot have "cmp y x \<le> 0" by blast
    with False Cons show ?thesis by (auto simp: set_insert_by)
  qed
qed

lemma sorted_sort_by:
  assumes tot: "\<And>a b. cmp a b \<le> 0 \<or> cmp b a \<le> 0"
    and tr: "\<And>a b c. cmp a b \<le> 0 \<Longrightarrow> cmp b c \<le> 0 \<Longrightarrow> cmp a c \<le> 0"
  shows "sorted_wrt (\<lambda>a b. cmp a b \<le> 0) (sort_by cmp xs)"
  unfolding sort_by_def
  by (induction xs) (auto intro: sorted_insert_by [OF tot tr])

lemma mulberry32_shape: "\<exists>w :: 32 word. fst (mulberry32 t) = of_int (uint w) / 4294967296"
  unfolding mulberry32_def Let_def fst_conv by (rule exI) (rule refl)

lemma mulberry32_range: "mulberry32 t = (v, t') \<Longrightarrow> 0 \<le> v \<and> v < 1"
proof -
  assume m: "mulberry32 t = (v, t')"
  from mulberry32_shape [of t] obtain w :: "32 word"
    where "fst (mulberry32 t) = of_int (uint w) / 4294967296" ..
  with m have v: "v = of_int (uint w) / 4294967296" by simp
  have "uint w < 4294967296"
    using uint_bounded [of w] by simp
  then have "(of_int (uint w) :: rat) < 4294967296"
    by (metis of_int_less_iff of_int_numeral)
  moreover have "(0 :: rat) \<le> of_int (uint w)"
    using uint_nonnegative [of w] by (metis of_int_0_le_iff)
  ultimately show ?thesis
    unfolding v by simp
qed

lemma rand_next_range: "rand_next r = (v, r') \<Longrightarrow> 0 \<le> v \<and> v < 1"
  by (cases r) (auto simp: frac_lt_1 split: prod.splits dest: mulberry32_range)

lemma rand_index: 
  assumes "rand_next r = (v, r')"
  shows "nat \<lfloor>v * of_int (int i + 1)\<rfloor> \<le> i"
proof -
  from rand_next_range [OF assms] have v: "0 \<le> v" "v < 1" by auto
  then have "v * of_int (int i + 1) < of_int (int i + 1)"
    by (simp add: mult_less_cancel_right2)
  then have "\<lfloor>v * of_int (int i + 1)\<rfloor> < int i + 1"
    using floor_less_iff by blast
  then show ?thesis by linarith
qed

lemma mset_swap': "i < length arr \<Longrightarrow> j < length arr \<Longrightarrow> mset (swap i j arr) = mset arr"
  unfolding swap_def by (simp add: mset_swap)

lemma length_swap [simp]: "length (swap i j arr) = length arr"
  by (simp add: swap_def)

lemma mset_shuffleFrom: "i < length arr \<or> i = 0 \<Longrightarrow> mset (fst (shuffleFrom i arr r)) = mset arr"
proof (induction i arbitrary: arr r)
  case 0
  then show ?case by simp
next
  case (Suc i)
  obtain v r' where n: "rand_next r = (v, r')" by (cases "rand_next r") auto
  let ?j = "nat \<lfloor>v * of_int (int (Suc i) + 1)\<rfloor>"
  have j: "?j \<le> Suc i" using rand_index [OF n] .
  with Suc.prems have "mset (swap (Suc i) ?j arr) = mset arr"
    by (intro mset_swap') auto
  moreover have "mset (fst (shuffleFrom i (swap (Suc i) ?j arr) r')) = mset (swap (Suc i) ?j arr)"
    using Suc.prems by (intro Suc.IH) auto
  ultimately show ?case using n by (simp add: Let_def)
qed

lemma mset_shuffleInPlace: "mset (fst (shuffleInPlace arr r)) = mset arr"
  unfolding shuffleInPlace_def by (rule mset_shuffleFrom) (cases arr; simp)

section \<open>Shape of the payout list\<close>

lemma length_taperLoop:
  "length (taperLoop n i remaining share ratios) = length ratios + nat (\<lceil>n\<rceil> - i)"
proof (induction n i remaining share ratios rule: taperLoop.induct)
  case (1 n i remaining share ratios)
  show ?case
  proof (cases "of_int i < n")
    case True
    then have "i < \<lceil>n\<rceil>"
      by (simp add: less_ceiling_iff)
    with 1 True show ?thesis
      by (subst taperLoop.simps) (simp add: Let_def nat_diff_distrib')
  next
    case False
    then have "\<lceil>n\<rceil> \<le> i"
      by (simp add: ceiling_le_iff)
    with False show ?thesis
      by (subst taperLoop.simps) simp
  qed
qed

text \<open>The schedule has \<open>\<lceil>n\<rceil>\<close> entries, for the capped number \<open>n\<close> of places.\<close>

lemma length_basePayoutRatios:
  "length (basePayoutRatios places numTeams) = nat \<lceil>max 1 (min places (of_nat numTeams))\<rceil>"
proof -
  define n where "n = max 1 (min places (of_nat numTeams))"
  have "length (basePayoutRatios places numTeams) = nat \<lceil>n\<rceil>"
    unfolding basePayoutRatios_def Let_def n_def [symmetric]
    by (simp add: length_taperLoop)
  then show ?thesis
    by (simp add: n_def)
qed

lemma length_adjustPass:
  "adjustPass step dir xs diff = (ys, d, a) \<Longrightarrow> length ys = length xs"
  by (induction xs arbitrary: diff ys d a) (auto simp: Let_def split: if_splits prod.splits)

lemma length_adjustLoop: "length (adjustLoop step dir rounded diff) = length rounded"
proof (induction step dir rounded diff rule: adjustLoop.induct)
  case (1 step dir rounded diff)
  show ?case
  proof (cases "0 < step \<and> diff \<ge> step")
    case False
    then show ?thesis by (subst adjustLoop.simps) auto
  next
    case True
    obtain ys d a where p: "adjustPass step dir rounded diff = (ys, d, a)"
      by (cases "adjustPass step dir rounded diff") auto
    have l: "length ys = length rounded"
      using length_adjustPass [OF p] .
    show ?thesis
    proof (cases a)
      case True
      then have "length (adjustLoop step dir ys d) = length ys"
        using 1 [OF \<open>0 < step \<and> diff \<ge> step\<close> p [symmetric] refl] by simp
      with True p l \<open>0 < step \<and> diff \<ge> step\<close> show ?thesis
        by (subst adjustLoop.simps) simp
    next
      case False
      with p l \<open>0 < step \<and> diff \<ge> step\<close> show ?thesis
        by (subst adjustLoop.simps) simp
    qed
  qed
qed

lemma length_clampFrom: "length (clampFrom prev xs) = length xs"
  by (induction xs arbitrary: prev) (auto simp: Let_def)

lemma length_enforceNonIncreasing: "length (enforceNonIncreasing xs) = length xs"
  by (cases xs) (auto simp: enforceNonIncreasing_def length_clampFrom)

lemma length_tryRound: "length (fst (tryRound vs tot step)) = length vs"
  by (simp add: tryRound_def Let_def length_enforceNonIncreasing length_adjustLoop)

lemma length_roundPayouts: "length (roundPayoutsPrefer10Then5 vs tot) = length vs"
  using length_tryRound [of vs tot 5] length_tryRound [of vs tot 10]
  by (auto simp: roundPayoutsPrefer10Then5_def Let_def length_enforceNonIncreasing)

lemma enumerate_nth_map:
  "map (\<lambda>(i, x). f i x) (enumerate 0 xs) = map (\<lambda>i. f i (xs ! i)) [0..<length xs]"
  by (rule nth_equalityI) (auto simp: nth_enumerate_eq)

lemma length_mkPayouts: "length (mkPayouts xs) = length xs"
  by (simp add: mkPayouts_def)

lemma place_mkPayouts: "map place (mkPayouts xs) = [1..<Suc (length xs)]"
  unfolding mkPayouts_def enumerate_nth_map
  by (rule nth_equalityI) (auto simp del: upt_Suc)

lemma amount_mkPayouts: "map amount (mkPayouts xs) = xs"
  unfolding mkPayouts_def enumerate_nth_map
  by (rule nth_equalityI) auto

section \<open>The result of a call that returns\<close>

lemma generateGame_Inr:
  assumes "generateGame h c ps settings = Inr res"
  obtains ts remaining where
    "assignTeams h settings (map (computePlayerCH c) ps) = Inr (ts, remaining)"
    "teams res = sortedTeams (map withHandicap ts)"
    "prizePool res = max 0 (round (entryFeePerPlayer settings * of_nat (length ps)))"
    "skinsPool res = max 0 (round ((case skinsPoolPerPlayer settings of None \<Rightarrow> 0 | Some f \<Rightarrow> f) * of_nat (length ps)))"
    "payouts res = mkPayouts (roundPayoutsPrefer10Then5
        (map (\<lambda>r. r * of_int (prizePool res))
          (basePayoutRatios (max 1 (case paidPlaces settings of None \<Rightarrow> 3 | Some n \<Rightarrow> n)) (length (teams res))))
        (prizePool res))"
    "totalPlayers res = length ps" "game_course res = c"
  using assms
  by (auto simp: generateGame_def Let_def split: sum.splits prod.splits)

section \<open>Invariants of the assignment loops\<close>

lemma fits_teamsInit: "fits sizes (teamsInit sizes, sizes)"
  by (simp add: fits_def teamsInit_def)

lemma fits_placeAt:
  assumes "fits sizes st" "k < length sizes" "group_size g \<le> snd st ! k"
    "group_size g = length (members g)"
  shows "fits sizes (placeAt k g st)"
  using assms
  by (cases st) (auto simp: fits_def placeAt_def nth_list_update)

lemma players_placeAt:
  assumes "k < length (fst st)"
  shows "mset (concat (map players (fst (placeAt k g st))))
       = mset (concat (map players (fst st))) + mset (members g)"
proof -
  obtain ts rs where st: "st = (ts, rs)" by (cases st)
  with assms have k: "k < length ts" by simp
  let ?t = "(ts ! k)\<lparr>players := players (ts ! k) @ members g\<rparr>"
  have a: "ts[k := ?t] = take k ts @ ?t # drop (Suc k) ts"
    using k by (rule upd_conv_take_nth_drop)
  have b: "ts = take k ts @ ts ! k # drop (Suc k) ts"
    using k by (rule id_take_nth_drop)
  have "mset (concat (map players (ts[k := ?t])))
      = mset (concat (map players (take k ts))) + mset (players (ts ! k)) + mset (members g)
        + mset (concat (map players (drop (Suc k) ts)))"
    by (subst a) simp
  also have "\<dots> = mset (concat (map players (take k ts @ ts ! k # drop (Suc k) ts))) + mset (members g)"
    by simp
  also have "\<dots> = mset (concat (map players ts)) + mset (members g)"
    using b by simp
  finally show ?thesis
    by (simp add: st placeAt_def)
qed

lemma holdsI: "t \<in> set ts \<Longrightarrow> players t = pre @ members g @ post \<Longrightarrow> holds g ts"
  unfolding holds_def by blast

lemma holds_placeAt_new:
  assumes "k < length (fst st)"
  shows "holds g (fst (placeAt k g st))"
proof -
  obtain ts rs where st: "st = (ts, rs)" by (cases st)
  with assms have k: "k < length ts" by simp
  define t' where "t' = (ts ! k)\<lparr>players := players (ts ! k) @ members g\<rparr>"
  have "t' \<in> set (ts[k := t'])"
    using k by (simp add: set_update_memI)
  moreover have "players t' = players (ts ! k) @ members g @ []"
    by (simp add: t'_def)
  ultimately have "holds g (ts[k := t'])"
    by (rule holdsI)
  then show ?thesis
    by (simp add: st placeAt_def t'_def)
qed

lemma holds_placeAt_old:
  assumes "holds g' (fst st)"
  shows "holds g' (fst (placeAt k g st))"
proof -
  obtain ts rs where st: "st = (ts, rs)" by (cases st)
  from assms st obtain t pre post where t: "t \<in> set ts" "players t = pre @ members g' @ post"
    by (auto simp: holds_def)
  define t' where "t' = (ts ! k)\<lparr>players := players (ts ! k) @ members g\<rparr>"
  have "holds g' (ts[k := t'])"
  proof (cases "k < length ts \<and> t = ts ! k")
    case True
    then have "t' \<in> set (ts[k := t'])"
      by (simp add: set_update_memI)
    moreover have "players t' = pre @ members g' @ (post @ members g)"
      using True t by (simp add: t'_def)
    ultimately show ?thesis
      by (rule holdsI)
  next
    case False
    from t(1) obtain i where i: "i < length ts" "ts ! i = t"
      by (auto simp: in_set_conv_nth)
    with False have "i \<noteq> k" by auto
    with i have "ts[k := t'] ! i = t" by simp
    moreover have "i < length (ts[k := t'])" using i by simp
    ultimately have "t \<in> set (ts[k := t'])"
      using nth_mem by metis
    then show ?thesis
      using t(2) by (rule holdsI)
  qed
  then show ?thesis
    by (simp add: st placeAt_def t'_def)
qed

lemma length_placeAt: "length (fst (placeAt k g st)) = length (fst st)"
  by (cases st) (simp add: placeAt_def)

lemma firstFit_Some:
  "firstFit n remaining gsize = Some k \<Longrightarrow> k < n \<and> gsize \<le> remaining ! k"
  by (auto simp: firstFit_def find_Some_iff)

lemma bestFit_Some:
  "bestFit n remaining gsize = Some k \<Longrightarrow> k < n \<and> gsize \<le> remaining ! k"
proof -
  define f where "f = (\<lambda>(bestIdx :: nat option, bestRemain :: int) k.
                   let rem = remaining ! k
                   in if rem \<ge> gsize \<and> int rem > bestRemain then (Some k, int rem)
                      else (bestIdx, bestRemain))"
  have inv: "set ks \<subseteq> {..<n} \<Longrightarrow> fst (foldl f (None, - 1) ks) = Some k \<Longrightarrow>
       k < n \<and> gsize \<le> remaining ! k" for ks k
  proof (induction ks arbitrary: k rule: rev_induct)
    case Nil
    then show ?case by simp
  next
    case (snoc a ks)
    obtain b r where acc: "foldl f (None, - 1) ks = (b, r)"
      by (cases "foldl f (None, - 1) ks") auto
    show ?case
    proof (cases "remaining ! a \<ge> gsize \<and> int (remaining ! a) > r")
      case True
      with snoc.prems acc have "k = a" by (simp add: f_def Let_def)
      with True snoc.prems(1) show ?thesis by simp
    next
      case False
      with snoc.prems acc have "fst (foldl f (None, - 1) ks) = Some k"
        by (auto simp: f_def Let_def)
      with snoc.IH snoc.prems(1) show ?thesis by simp
    qed
  qed
  assume "bestFit n remaining gsize = Some k"
  then have "fst (foldl f (None, - 1) [0..<n]) = Some k"
    unfolding bestFit_def f_def .
  moreover have "set [0..<n] \<subseteq> {..<n}"
    by auto
  ultimately show ?thesis
    using inv [of "[0..<n]" k] by blast
qed

lemma set_shuffled_indices: "set (fst (shuffleInPlace [0..<n] r)) = {..<n}"
proof -
  have "set (fst (shuffleInPlace [0..<n] r)) = set [0..<n]"
    using mset_shuffleInPlace [of "[0..<n]" r] by (rule mset_eq_setD)
  also have "\<dots> = {..<n}"
    by (simp add: atLeast0LessThan)
  finally show ?thesis .
qed

lemma find_SomeD: "find P xs = Some x \<Longrightarrow> x \<in> set xs \<and> P x"
  by (induction xs) (auto split: if_splits)

text \<open>One placement keeps the invariants, under either policy.\<close>

lemma placeBalanced_Inr:
  assumes "placeBalanced g st = Inr st'"
  obtains k where "k < length (fst st)" "group_size g \<le> snd st ! k" "st' = placeAt k g st"
proof -
  let ?n = "length (fst st)"
  define n where "n = ?n"
  define best where "best = bestFit n (snd st) (group_size g)"
  define idx where "idx = (case best of None \<Rightarrow> firstFit n (snd st) (group_size g) | Some k \<Rightarrow> Some k)"
  have e: "placeBalanced g st =
      (case idx of None \<Rightarrow> Inl (UnableToPlace (group_size g)) | Some k \<Rightarrow> Inr (placeAt k g st))"
    unfolding placeBalanced_def Let_def idx_def best_def n_def ..
  with assms obtain k where k: "idx = Some k" "st' = placeAt k g st"
    by (cases idx) auto
  have "k < n \<and> group_size g \<le> snd st ! k"
  proof (cases best)
    case None
    with k(1) have "firstFit n (snd st) (group_size g) = Some k" by (simp add: idx_def)
    then show ?thesis by (rule firstFit_Some)
  next
    case (Some j)
    with k(1) have "bestFit n (snd st) (group_size g) = Some k" by (simp add: idx_def best_def)
    then show ?thesis by (rule bestFit_Some)
  qed
  with k(2) that show ?thesis unfolding n_def by blast
qed

lemma placeRandomized_Inr:
  assumes "placeRandomized g st rand = Inr (st', rand')"
  obtains k where "k < length (fst st)" "group_size g \<le> snd st ! k" "st' = placeAt k g st"
proof -
  define n where "n = length (fst st)"
  obtain order r1 where o: "shuffleInPlace [0..<n] rand = (order, r1)"
    by (cases "shuffleInPlace [0..<n] rand") auto
  then have so: "set order = {..<n}"
    using set_shuffled_indices [of n rand] by simp
  define found where "found = find (\<lambda>idx. snd st ! idx \<ge> group_size g) order"
  define idx where "idx = (case found of None \<Rightarrow> firstFit n (snd st) (group_size g) | Some k \<Rightarrow> Some k)"
  have e: "placeRandomized g st rand =
      (case idx of None \<Rightarrow> Inl (UnableToPlace (group_size g)) | Some k \<Rightarrow> Inr (placeAt k g st, r1))"
    unfolding placeRandomized_def Let_def idx_def found_def o [unfolded n_def] n_def by simp
  with assms obtain k where k: "idx = Some k" "st' = placeAt k g st"
    by (cases idx) auto
  have "k < n \<and> group_size g \<le> snd st ! k"
  proof (cases found)
    case None
    with k(1) have "firstFit n (snd st) (group_size g) = Some k" by (simp add: idx_def)
    then show ?thesis by (rule firstFit_Some)
  next
    case (Some j)
    with k(1) have "find (\<lambda>idx. snd st ! idx \<ge> group_size g) order = Some k"
      by (simp add: idx_def found_def)
    then have "k \<in> set order \<and> group_size g \<le> snd st ! k"
      by (rule find_SomeD)
    with so show ?thesis by (simp add: n_def)
  qed
  with k(2) that show ?thesis unfolding n_def by blast
qed

lemma players_teamsInit: "concat (map players (teamsInit sizes)) = []"
  by (simp add: teamsInit_def o_def)

lemma placed_init: "placed sizes [] (teamsInit sizes, sizes)"
  by (simp add: placed_def fits_teamsInit players_teamsInit)

lemma placed_step:
  assumes p: "placed sizes gs st" and k: "k < length (fst st)" "group_size g \<le> snd st ! k"
    and g: "group_size g = length (members g)"
  shows "placed sizes (gs @ [g]) (placeAt k g st)"
proof -
  from p have f: "fits sizes st" by (simp add: placed_def)
  with k have k': "k < length sizes" by (simp add: fits_def)
  have "fits sizes (placeAt k g st)"
    using f k' k(2) g by (rule fits_placeAt)
  moreover have "mset (concat (map players (fst (placeAt k g st)))) = mset (concat (map members (gs @ [g])))"
    using p players_placeAt [OF k(1), of g] by (simp add: placed_def)
  moreover have "\<forall>g' \<in> set (gs @ [g]). holds g' (fst (placeAt k g st))"
  proof
    fix g'
    assume "g' \<in> set (gs @ [g])"
    then consider "g' \<in> set gs" | "g' = g" by auto
    then show "holds g' (fst (placeAt k g st))"
    proof cases
      case 1
      with p have "holds g' (fst st)" by (simp add: placed_def)
      then show ?thesis by (rule holds_placeAt_old)
    next
      case 2
      then show ?thesis using holds_placeAt_new [OF k(1), of g] by simp
    qed
  qed
  ultimately show ?thesis
    by (simp add: placed_def)
qed

lemma assignBalanced_placed:
  assumes "assignBalanced gs st = Inr st'" "placed sizes done st"
    "\<forall>g \<in> set gs. group_size g = length (members g)"
  shows "placed sizes (done @ gs) st'"
  using assms
proof (induction gs arbitrary: st "done")
  case Nil
  then show ?case by simp
next
  case (Cons g gs)
  from Cons.prems(1) obtain st1 where s: "placeBalanced g st = Inr st1" "assignBalanced gs st1 = Inr st'"
    by (auto split: sum.splits)
  from s(1) obtain k where k: "k < length (fst st)" "group_size g \<le> snd st ! k" "st1 = placeAt k g st"
    by (rule placeBalanced_Inr)
  have "placed sizes (done @ [g]) st1"
    unfolding k(3) using Cons.prems(2) k(1,2) Cons.prems(3) by (intro placed_step) auto
  with Cons.IH [OF s(2), of "done @ [g]"] Cons.prems(3) show ?case by simp
qed

lemma assignRandomized_placed:
  assumes "assignRandomized gs st rand = Inr st'" "placed sizes done st"
    "\<forall>g \<in> set gs. group_size g = length (members g)"
  shows "placed sizes (done @ gs) st'"
  using assms
proof (induction gs arbitrary: st "done" rand)
  case Nil
  then show ?case by simp
next
  case (Cons g gs)
  from Cons.prems(1) obtain st1 r1 where
    s: "placeRandomized g st rand = Inr (st1, r1)" "assignRandomized gs st1 r1 = Inr st'"
    by (auto split: sum.splits)
  from s(1) obtain k where k: "k < length (fst st)" "group_size g \<le> snd st ! k" "st1 = placeAt k g st"
    by (rule placeRandomized_Inr)
  have "placed sizes (done @ [g]) st1"
    unfolding k(3) using Cons.prems(2) k(1,2) Cons.prems(3) by (intro placed_step) auto
  with Cons.IH [OF s(2), of "done @ [g]"] Cons.prems(3) show ?case by simp
qed

section \<open>Group formation partitions the roster\<close>

lemma concat_chunkFrom: "concat (chunkFrom i ms) = drop i ms"
proof (induction i ms rule: chunkFrom.induct)
  case (1 i ms)
  show ?case
  proof (cases "i < length ms")
    case True
    have "take 4 (drop i ms) @ drop (i + 4) ms = drop i ms"
      by (metis add.commute append_take_drop_id drop_drop)
    with 1 True show ?thesis
      by (subst chunkFrom.simps) simp
  next
    case False
    then show ?thesis
      by (subst chunkFrom.simps) simp
  qed
qed

lemma members_chunkGroups:
  "map (members \<circ> (\<lambda>(idx, chunk). chunkGroup g idx chunk)) (enumerate n chunked) = chunked"
  by (induction chunked arbitrary: n) (auto simp: chunkGroup_def)

lemma members_groupsOf: "concat (map members (groupsOf g)) = members g"
  by (simp add: groupsOf_def Let_def members_chunkGroups concat_chunkFrom)

lemma size_groupsOf: "g' \<in> set (groupsOf g) \<Longrightarrow> group_size g' = length (members g')"
  by (auto simp: groupsOf_def Let_def chunkGroup_def in_set_enumerate_eq split: if_splits)

lemma members_push_member:
  "mset (concat (map (\<lambda>(k, g). members g) (push_member gid p m)))
     = add_mset p (mset (concat (map (\<lambda>(k, g). members g) m)))"
  by (induction m) auto

lemma members_groupsMap_foldl:
  "mset (concat (map (\<lambda>(k, g). members g) (foldl (\<lambda>m p. push_member (gidOf p) p m) m ps)))
     = mset (concat (map (\<lambda>(k, g). members g) m)) + mset ps"
  by (induction ps arbitrary: m) (auto simp: members_push_member)

lemma members_groupsMap:
  "mset (concat (map (\<lambda>(k, g). members g) (groupsMap enriched))) = mset enriched"
  unfolding groupsMap_def using members_groupsMap_foldl [of "[]" enriched] by simp

lemma members_formGroups_aux:
  "concat (map members (concat (map (\<lambda>(k, g). groupsOf g) m))) = concat (map (\<lambda>(k, g). members g) m)"
  by (induction m) (auto simp: members_groupsOf)

lemma members_formGroups: "mset (concat (map members (formGroups enriched))) = mset enriched"
  unfolding formGroups_def members_formGroups_aux by (rule members_groupsMap)

lemma size_formGroups: "g \<in> set (formGroups enriched) \<Longrightarrow> group_size g = length (members g)"
  by (auto simp: formGroups_def dest: size_groupsOf)

text \<open>The map of groups holds, under every key, the players with that key.\<close>

lemma push_member_keys: "fst ` set (push_member gid p m) = insert gid (fst ` set m)"
proof -
  have "map fst (push_member gid p m)
      = (if gid \<in> fst ` set m then map fst m else map fst m @ [gid])"
    by (induction m) (auto simp: rev_image_eqI)
  then have "set (map fst (push_member gid p m)) = insert gid (set (map fst m))"
    by (simp add: insert_absorb split: if_splits)
  then show ?thesis by simp
qed

lemma push_member_distinct: "distinct (map fst m) \<Longrightarrow> distinct (map fst (push_member gid p m))"
proof (induction m)
  case Nil
  then show ?case by simp
next
  case (Cons e m)
  obtain k g where e: "e = (k, g)" by (cases e)
  show ?case
  proof (cases "k = gid")
    case True
    with Cons.prems e show ?thesis by simp
  next
    case False
    have "k \<notin> fst ` set (push_member gid p m)"
      using Cons.prems e False by (auto simp: push_member_keys)
    with Cons e False show ?thesis by simp
  qed
qed

lemma push_member_entry:
  assumes "(k, g) \<in> set (push_member gid p m)" "distinct (map fst m)"
  shows "(k \<noteq> gid \<and> (k, g) \<in> set m)
       \<or> (k = gid \<and> (\<exists>g0. (k, g0) \<in> set m \<and> g = g0\<lparr>members := members g0 @ [p]\<rparr>))
       \<or> (k = gid \<and> gid \<notin> fst ` set m
            \<and> g = \<lparr>group_id = gid, members = [p], group_size = 0, strength = 0\<rparr>)"
  using assms
proof (induction m)
  case Nil
  then show ?case by simp
next
  case (Cons e m)
  obtain k' g' where e: "e = (k', g')" by (cases e)
  show ?case
  proof (cases "k' = gid")
    case True
    with Cons.prems e consider "(k, g) = (gid, g'\<lparr>members := members g' @ [p]\<rparr>)" | "(k, g) \<in> set m"
      by auto
    then show ?thesis
    proof cases
      case 1
      with True e show ?thesis by auto
    next
      case 2
      then have "k \<in> fst ` set m" by force
      with Cons.prems(2) e True have "k \<noteq> gid" by auto
      with 2 show ?thesis by simp
    qed
  next
    case False
    with Cons.prems e consider "(k, g) = (k', g')" | "(k, g) \<in> set (push_member gid p m)"
      by auto
    then show ?thesis
    proof cases
      case 1
      with False e show ?thesis by auto
    next
      case 2
      from Cons.prems(2) have "distinct (map fst m)" by simp
      from Cons.IH [OF 2 this] False e show ?thesis by auto
    qed
  qed
qed

lemma grouped_push_member:
  assumes "grouped m xs"
  shows "grouped (push_member (gidOf p) p m) (xs @ [p])"
proof -
  from assms have d: "distinct (map fst m)" and ks: "fst ` set m = gidOf ` set xs"
    and en: "\<And>k g. (k, g) \<in> set m \<Longrightarrow> group_id g = k \<and> members g = filter (\<lambda>p. gidOf p = k) xs"
    by (auto simp: grouped_def)
  have "group_id g = k \<and> members g = filter (\<lambda>q. gidOf q = k) (xs @ [p])"
    if "(k, g) \<in> set (push_member (gidOf p) p m)" for k g
    using push_member_entry [OF that d]
  proof (elim disjE conjE exE)
    assume "k \<noteq> gidOf p" "(k, g) \<in> set m"
    with en [of k g] show ?thesis by auto
  next
    fix g0
    assume "k = gidOf p" "(k, g0) \<in> set m" "g = g0\<lparr>members := members g0 @ [p]\<rparr>"
    with en [of k g0] show ?thesis by auto
  next
    assume k: "k = gidOf p" and n: "gidOf p \<notin> fst ` set m"
      and g: "g = \<lparr>group_id = gidOf p, members = [p], group_size = 0, strength = 0\<rparr>"
    from n ks have "gidOf p \<notin> gidOf ` set xs" by simp
    then have "\<forall>q \<in> set xs. gidOf q \<noteq> gidOf p"
      by (metis imageI)
    then have "filter (\<lambda>q. gidOf q = gidOf p) xs = []"
      by (simp add: filter_empty_conv)
    with k g show ?thesis by simp
  qed
  then show ?thesis
    using push_member_distinct [OF d] ks
    by (auto simp: grouped_def push_member_keys)
qed

lemma grouped_groupsMap: "grouped (groupsMap xs) xs"
proof (induction xs rule: rev_induct)
  case Nil
  then show ?case by (simp add: grouped_def groupsMap_def)
next
  case (snoc p xs)
  have "groupsMap (xs @ [p]) = push_member (gidOf p) p (groupsMap xs)"
    by (simp add: groupsMap_def)
  with grouped_push_member [OF snoc] show ?case by simp
qed

section \<open>What the assignment returns\<close>

lemma mset_sortedGroups: "mset (fst (sortedGroups h settings groups ambient)) = mset groups"
proof (cases "randomizeTeams settings = Some True")
  case True
  obtain sh r' where s: "shuffleInPlace groups (pickRand settings ambient) = (sh, r')"
    by (cases "shuffleInPlace groups (pickRand settings ambient)") auto
  then have "mset sh = mset groups"
    using mset_shuffleInPlace [of groups "pickRand settings ambient"] by simp
  with True s show ?thesis
    by (simp add: sortedGroups_def Let_def mset_sort_by)
next
  case False
  then show ?thesis
    by (simp add: sortedGroups_def mset_sort_by)
qed

lemma mset_concat_members:
  fixes gs gs' :: "group list"
  assumes "mset gs = mset gs'"
  shows "mset (concat (map members gs)) = mset (concat (map members gs'))"
proof -
  have c: "mset (concat (map members xs)) = (\<Sum>g\<in>#mset xs. mset (members g))" for xs :: "group list"
    by (induction xs) auto
  show ?thesis
    unfolding c assms ..
qed

lemma assignTeams_placed:
  assumes "assignTeams h settings enriched = Inr st"
  obtains sorted where "mset sorted = mset (formGroups enriched)"
    "placed (determineTeamSizes (length enriched)) sorted st"
proof -
  let ?sizes = "determineTeamSizes (length enriched)"
  obtain sorted amb where
    s: "sortedGroups h settings (formGroups enriched) (MathRandom (mathRandom h) 0) = (sorted, amb)"
    by (cases "sortedGroups h settings (formGroups enriched) (MathRandom (mathRandom h) 0)") auto
  then have m: "mset sorted = mset (formGroups enriched)"
    using mset_sortedGroups [of h settings "formGroups enriched" "MathRandom (mathRandom h) 0"] by simp
  then have "set sorted = set (formGroups enriched)"
    by (rule mset_eq_setD)
  then have sz: "\<forall>g \<in> set sorted. group_size g = length (members g)"
    using size_formGroups by blast
  have "placed ?sizes ([] @ sorted) st"
  proof (cases "randomizeTeams settings = Some True")
    case True
    with assms s have "assignRandomized sorted (teamsInit ?sizes, ?sizes) (pickRand settings amb) = Inr st"
      by (simp add: assignTeams_def Let_def)
    then show ?thesis
      using placed_init sz by (rule assignRandomized_placed)
  next
    case False
    with assms s have "assignBalanced sorted (teamsInit ?sizes, ?sizes) = Inr st"
      by (simp add: assignTeams_def Let_def)
    then show ?thesis
      using placed_init sz by (rule assignBalanced_placed)
  qed
  with m that show ?thesis by simp
qed

section \<open>Properties of the final team order\<close>

lemma sumCH_sum_list: "sumCH ms = sum_list (map courseHandicap ms)"
proof -
  have "foldl (\<lambda>s m. s + courseHandicap m) a ms = a + sum_list (map courseHandicap ms)" for a
    by (induction ms arbitrary: a) auto
  then show ?thesis by (simp add: sumCH_def)
qed

lemma renumber_nth:
  "renumber ts = map (\<lambda>i. (ts ! i)\<lparr>team_id := i + 1\<rparr>) [0..<length ts]"
  unfolding renumber_def by (rule enumerate_nth_map)

lemma length_renumber: "length (renumber ts) = length ts"
  by (simp add: renumber_nth)

lemma players_renumber: "map players (renumber ts) = map players ts"
  unfolding renumber_nth by (rule nth_equalityI) auto

lemma teamHandicap_renumber: "map teamHandicap (renumber ts) = map teamHandicap ts"
  unfolding renumber_nth by (rule nth_equalityI) auto

lemma team_id_renumber: "map team_id (renumber ts) = [1..<Suc (length ts)]"
  unfolding renumber_nth by (rule nth_equalityI) (auto simp del: upt_Suc)

lemma length_sortedTeams: "length (sortedTeams ts) = length ts"
  by (simp add: sortedTeams_def length_renumber length_sort_by)

lemma players_sortedTeams: "mset (map players (sortedTeams ts)) = mset (map players ts)"
proof -
  have "mset (map players (sort_by cmpTeams ts)) = mset (map players ts)"
    using mset_sort_by [of cmpTeams ts] by (metis mset_map)
  then show ?thesis
    by (simp add: sortedTeams_def players_renumber)
qed

lemma cmpTeams_le: "cmpTeams a b \<le> 0 \<longleftrightarrow> teamBefore a b"
  by (auto simp: cmpTeams_def teamBefore_def Let_def)

lemma sorted_sort_by_cmpTeams: "sorted_wrt teamBefore (sort_by cmpTeams ts)"
proof -
  have "sorted_wrt (\<lambda>a b. cmpTeams a b \<le> 0) (sort_by cmpTeams ts)"
  proof (rule sorted_sort_by)
    show "cmpTeams a b \<le> 0 \<or> cmpTeams b a \<le> 0" for a b
      unfolding cmpTeams_le teamBefore_def by auto
    show "cmpTeams a b \<le> 0 \<Longrightarrow> cmpTeams b c \<le> 0 \<Longrightarrow> cmpTeams a c \<le> 0" for a b c
      unfolding cmpTeams_le teamBefore_def by auto
  qed
  then show ?thesis
    by (simp add: cmpTeams_le [abs_def])
qed

lemma sorted_sortedTeams: "sorted_wrt teamBefore (sortedTeams ts)"
proof -
  let ?s = "sort_by cmpTeams ts"
  have "teamBefore (renumber ?s ! i) (renumber ?s ! j)" if "i < j" "j < length ?s" for i j
  proof -
    from that have "teamBefore (?s ! i) (?s ! j)"
      using sorted_sort_by_cmpTeams [of ts] by (simp add: sorted_wrt_iff_nth_less)
    with that show ?thesis
      by (simp add: renumber_nth teamBefore_def)
  qed
  then show ?thesis
    by (simp add: sortedTeams_def sorted_wrt_iff_nth_less length_renumber)
qed

lemma teamHandicap_sortedTeams:
  assumes "t \<in> set (sortedTeams (map withHandicap ts))"
  shows "teamHandicap t = sum_list (map courseHandicap (players t))"
proof -
  let ?s = "sort_by cmpTeams (map withHandicap ts)"
  from assms obtain i where i: "i < length ?s" "t = (?s ! i)\<lparr>team_id := i + 1\<rparr>"
    by (auto simp: sortedTeams_def renumber_nth)
  then have "?s ! i \<in> set (map withHandicap ts)"
    using set_sort_by [of cmpTeams "map withHandicap ts"] nth_mem by blast
  then obtain u where "?s ! i = withHandicap u" by auto
  with i(2) show ?thesis
    by (simp add: withHandicap_def sumCH_sum_list)
qed

section \<open>Assignment completeness\<close>

lemma sum_list_map2_add:
  fixes xs ys :: "nat list"
  shows "length xs = length ys \<Longrightarrow> sum_list (map2 (+) xs ys) = sum_list xs + sum_list ys"
  by (induction xs ys rule: list_induct2) auto

lemma fits_full:
  assumes f: "fits sizes (ts, remaining)"
    and n: "length (concat (map players ts)) = sum_list sizes"
  shows "map (\<lambda>t. length (players t)) ts = sizes"
proof -
  let ?ls = "map (\<lambda>t. length (players t)) ts"
  from f have l: "length ts = length sizes" "length remaining = length sizes"
    and p: "\<And>k. k < length sizes \<Longrightarrow> length (players (ts ! k)) + remaining ! k = sizes ! k"
    by (auto simp: fits_def)
  have "map2 (+) ?ls remaining = sizes"
    using l p by (intro nth_equalityI) auto
  then have "sum_list ?ls + sum_list remaining = sum_list sizes"
    using sum_list_map2_add [of ?ls remaining] l by simp
  moreover have "sum_list ?ls = length (concat (map players ts))"
    by (simp add: length_concat o_def)
  ultimately have "sum_list remaining = 0"
    using n by simp
  then have z: "\<And>k. k < length sizes \<Longrightarrow> remaining ! k = 0"
    using l(2) by simp
  show ?thesis
    using l p z by (intro nth_equalityI) auto
qed

lemma mset_concat_cong:
  assumes "mset xss = mset yss"
  shows "mset (concat xss) = mset (concat yss)"
proof -
  have c: "mset (concat zss) = (\<Sum>zs\<in>#mset zss. mset zs)" for zss :: "'a list list"
    by (induction zss) auto
  show ?thesis
    unfolding c assms ..
qed

lemma determineTeamSizes_sum: "sum_list (determineTeamSizes n) = n"
  by (auto simp: determineTeamSizes_def Let_def sum_list_replicate)

lemma players_withHandicap: "map players (map withHandicap ts) = map players ts"
  by (simp add: withHandicap_def)

text \<open>
  What the completeness claim says of the teams holds of every call that returns,
  whatever the sizes of the link groups and under either policy: the players of
  the output teams, taken together, are exactly the enriched roster (every player
  in exactly one team); the sizes of the output teams are, as a multiset, the plan
  \<open>determineTeamSizes\<close> for the roster's size; and the members of every group
  formed stand together in one output team.
\<close>

theorem assignment_complete:
  assumes "generateGame h c ps settings = Inr res"
  shows "mset (concat (map players (teams res))) = mset (map (computePlayerCH c) ps)
       \<and> mset (map (\<lambda>t. length (players t)) (teams res)) = mset (determineTeamSizes (length ps))
       \<and> (\<forall>g \<in> set (formGroups (map (computePlayerCH c) ps)).
            \<exists>t \<in> set (teams res). \<exists>pre post. players t = pre @ members g @ post)"
proof -
  let ?enriched = "map (computePlayerCH c) ps"
  let ?sizes = "determineTeamSizes (length ps)"
  from assms obtain ts remaining where
    a: "assignTeams h settings ?enriched = Inr (ts, remaining)"
    and t: "teams res = sortedTeams (map withHandicap ts)"
    by (rule generateGame_Inr)
  from a obtain sorted where
    m: "mset sorted = mset (formGroups ?enriched)"
    and p: "placed (determineTeamSizes (length ?enriched)) sorted (ts, remaining)"
    by (rule assignTeams_placed)
  from p have f: "fits ?sizes (ts, remaining)"
    and pl: "mset (concat (map players ts)) = mset (concat (map members sorted))"
    and hd: "\<And>g. g \<in> set sorted \<Longrightarrow> holds g ts"
    by (auto simp: placed_def)
  have perm: "mset (map players (teams res)) = mset (map players ts)"
    unfolding t using players_sortedTeams [of "map withHandicap ts"]
    by (simp only: players_withHandicap)
  have all: "mset (concat (map players ts)) = mset ?enriched"
    using pl mset_concat_members [OF m] members_formGroups [of ?enriched] by simp
  have one: "mset (concat (map players (teams res))) = mset ?enriched"
    using mset_concat_cong [OF perm] all by simp
  have "length (concat (map players ts)) = sum_list ?sizes"
    using all determineTeamSizes_sum [of "length ps"] by (metis length_map size_mset)
  with f have "map (\<lambda>t. length (players t)) ts = ?sizes"
    by (rule fits_full)
  then have "image_mset length (mset (map players ts)) = mset ?sizes"
    by (simp add: o_def flip: mset_map)
  then have "image_mset length (mset (map players (teams res))) = mset ?sizes"
    unfolding perm .
  then have two: "mset (map (\<lambda>t. length (players t)) (teams res)) = mset ?sizes"
    by (simp add: o_def flip: mset_map)
  have three: "\<exists>t \<in> set (teams res). \<exists>pre post. players t = pre @ members g @ post"
    if "g \<in> set (formGroups ?enriched)" for g
  proof -
    have "set sorted = set (formGroups ?enriched)"
      using m by (rule mset_eq_setD)
    with that have "holds g ts"
      using hd by simp
    then obtain u pre post where u: "u \<in> set ts" "players u = pre @ members g @ post"
      unfolding holds_def by blast
    have "set (map players (teams res)) = set (map players ts)"
      using perm by (rule mset_eq_setD)
    with u(1) have "players u \<in> set (map players (teams res))"
      by simp
    then obtain t where "t \<in> set (teams res)" "players t = players u"
      by auto
    with u(2) show ?thesis
      by metis
  qed
  from one two three show ?thesis by blast
qed

text \<open>
  The theorem at the seven unlinked players, and at ten players with link groups
  of four, three and two: the groups of four and two (balanced) and the group of
  three (seed 42) each stand together in one team.
\<close>

theorem assignment_complete_witness:
  "sevenBalanced = Inr (projr sevenBalanced)
   \<and> mset (concat (map players (teams (projr sevenBalanced))))
       = mset (map (computePlayerCH sampleCourse) sevenPlayers)
   \<and> mset (map (\<lambda>t. length (players t)) (teams (projr sevenBalanced))) = mset [4, 3]
   \<and> sevenSeeded = Inr (projr sevenSeeded)
   \<and> mset (map (\<lambda>t. length (players t)) (teams (projr sevenSeeded))) = mset [4, 3]
   \<and> map members (formGroups (map (computePlayerCH sampleCourse) tenLinked))
       = map (map (computePlayerCH sampleCourse))
           [take 4 tenLinked, take 3 (drop 4 tenLinked), take 2 (drop 7 tenLinked), drop 9 tenLinked]
   \<and> tenBalanced = Inr (projr tenBalanced)
   \<and> mset (map (\<lambda>t. length (players t)) (teams (projr tenBalanced))) = mset [4, 3, 3]
   \<and> (\<exists>t pre post. t \<in> set (teams (projr tenBalanced))
         \<and> players t = pre @ map (computePlayerCH sampleCourse) (take 4 tenLinked) @ post)
   \<and> (\<exists>t pre post. t \<in> set (teams (projr tenBalanced))
         \<and> players t = pre @ map (computePlayerCH sampleCourse) (take 2 (drop 7 tenLinked)) @ post)
   \<and> tenSeeded = Inr (projr tenSeeded)
   \<and> (\<exists>t pre post. t \<in> set (teams (projr tenSeeded))
         \<and> players t = pre @ map (computePlayerCH sampleCourse) (take 3 (drop 4 tenLinked)) @ post)"
proof -
  let ?E = "map (computePlayerCH sampleCourse) tenLinked"
  let ?four = "map (computePlayerCH sampleCourse) (take 4 tenLinked)"
  let ?three = "map (computePlayerCH sampleCourse) (take 3 (drop 4 tenLinked))"
  let ?two = "map (computePlayerCH sampleCourse) (take 2 (drop 7 tenLinked))"
  have "\<not> isl sevenBalanced" "\<not> isl sevenSeeded" "\<not> isl tenBalanced" "\<not> isl tenSeeded"
    by code_simp+
  then have e: "sevenBalanced = Inr (projr sevenBalanced)" "sevenSeeded = Inr (projr sevenSeeded)"
    "tenBalanced = Inr (projr tenBalanced)" "tenSeeded = Inr (projr tenSeeded)"
    by simp_all
  have d: "determineTeamSizes (length sevenPlayers) = [4, 3]"
    "determineTeamSizes (length tenLinked) = [4, 3, 3]"
    by code_simp+
  have m: "map members (formGroups ?E)
       = map (map (computePlayerCH sampleCourse))
           [take 4 tenLinked, take 3 (drop 4 tenLinked), take 2 (drop 7 tenLinked), drop 9 tenLinked]"
    by code_simp
  then have "set (map members (formGroups ?E)) = {?four, ?three, ?two, map (computePlayerCH sampleCourse) (drop 9 tenLinked)}"
    by (simp only: list.map list.set)
  then have i: "?four \<in> members ` set (formGroups ?E)" "?three \<in> members ` set (formGroups ?E)"
    "?two \<in> members ` set (formGroups ?E)"
    by simp_all
  from i(1) obtain g4 where g4: "g4 \<in> set (formGroups ?E)" "members g4 = ?four"
    by (rule imageE) simp
  from i(2) obtain g3 where g3: "g3 \<in> set (formGroups ?E)" "members g3 = ?three"
    by (rule imageE) simp
  from i(3) obtain g2 where g2: "g2 \<in> set (formGroups ?E)" "members g2 = ?two"
    by (rule imageE) simp
  note b = assignment_complete [OF e(3) [unfolded tenBalanced_def], folded tenBalanced_def]
  note s = assignment_complete [OF e(4) [unfolded tenSeeded_def], folded tenSeeded_def]
  from b have b3: "\<And>g. g \<in> set (formGroups ?E) \<Longrightarrow>
      \<exists>t \<in> set (teams (projr tenBalanced)). \<exists>pre post. players t = pre @ members g @ post"
    by (elim conjE) (rule bspec)
  from s have s3: "\<And>g. g \<in> set (formGroups ?E) \<Longrightarrow>
      \<exists>t \<in> set (teams (projr tenSeeded)). \<exists>pre post. players t = pre @ members g @ post"
    by (elim conjE) (rule bspec)
  have b4: "\<exists>t pre post. t \<in> set (teams (projr tenBalanced)) \<and> players t = pre @ ?four @ post"
    using b3 [OF g4(1)] unfolding g4(2) by (elim bexE exE) (intro exI conjI)
  have b2: "\<exists>t pre post. t \<in> set (teams (projr tenBalanced)) \<and> players t = pre @ ?two @ post"
    using b3 [OF g2(1)] unfolding g2(2) by (elim bexE exE) (intro exI conjI)
  have s3': "\<exists>t pre post. t \<in> set (teams (projr tenSeeded)) \<and> players t = pre @ ?three @ post"
    using s3 [OF g3(1)] unfolding g3(2) by (elim bexE exE) (intro exI conjI)
  from b have "mset (map (\<lambda>t. length (players t)) (teams (projr tenBalanced)))
      = mset (determineTeamSizes (length tenLinked))"
    by (elim conjE)
  then have bs: "mset (map (\<lambda>t. length (players t)) (teams (projr tenBalanced))) = mset [4, 3, 3]"
    by (simp only: d(2))
  from assignment_complete [OF e(1) [unfolded sevenBalanced_def], folded sevenBalanced_def]
    assignment_complete [OF e(2) [unfolded sevenSeeded_def], folded sevenSeeded_def]
    d(1)
  have seven: "mset (concat (map players (teams (projr sevenBalanced))))
       = mset (map (computePlayerCH sampleCourse) sevenPlayers)"
    "mset (map (\<lambda>t. length (players t)) (teams (projr sevenBalanced))) = mset [4, 3]"
    "mset (map (\<lambda>t. length (players t)) (teams (projr sevenSeeded))) = mset [4, 3]"
    by simp_all
  from e seven m bs b4 b2 s3' show ?thesis
    by (intro conjI)
qed

subsection \<open>Rosters that are always placed\<close>

lemma firstFit_finds:
  assumes "k < n" "gsize \<le> remaining ! k"
  shows "firstFit n remaining gsize \<noteq> None"
proof
  assume "firstFit n remaining gsize = None"
  then have "\<forall>j \<in> set [0..<n]. \<not> gsize \<le> remaining ! j"
    unfolding firstFit_def find_None_iff by blast
  with assms show False by simp
qed

lemma placeBalanced_succeeds:
  assumes "k < length (fst st)" "group_size g \<le> snd st ! k"
  shows "\<exists>st'. placeBalanced g st = Inr st'"
proof -
  define best where "best = bestFit (length (fst st)) (snd st) (group_size g)"
  define idx where "idx = (case best of None \<Rightarrow> firstFit (length (fst st)) (snd st) (group_size g) | Some k \<Rightarrow> Some k)"
  have e: "placeBalanced g st =
      (case idx of None \<Rightarrow> Inl (UnableToPlace (group_size g)) | Some k \<Rightarrow> Inr (placeAt k g st))"
    unfolding placeBalanced_def Let_def idx_def best_def ..
  have "idx \<noteq> None"
    using firstFit_finds [OF assms] by (cases best) (simp_all add: idx_def)
  with e show ?thesis
    by (cases idx) auto
qed

lemma placeRandomized_succeeds:
  assumes "k < length (fst st)" "group_size g \<le> snd st ! k"
  shows "\<exists>st' rand'. placeRandomized g st rand = Inr (st', rand')"
proof -
  obtain order r1 where o: "shuffleInPlace [0..<length (fst st)] rand = (order, r1)"
    by (cases "shuffleInPlace [0..<length (fst st)] rand") auto
  define found where "found = find (\<lambda>idx. snd st ! idx \<ge> group_size g) order"
  define idx where "idx = (case found of None \<Rightarrow> firstFit (length (fst st)) (snd st) (group_size g) | Some k \<Rightarrow> Some k)"
  have e: "placeRandomized g st rand =
      (case idx of None \<Rightarrow> Inl (UnableToPlace (group_size g)) | Some k \<Rightarrow> Inr (placeAt k g st, r1))"
    unfolding placeRandomized_def Let_def idx_def found_def o by simp
  have "idx \<noteq> None"
    using firstFit_finds [OF assms] by (cases found) (simp_all add: idx_def)
  with e show ?thesis
    by (cases idx) auto
qed

lemma room_for_one:
  fixes remaining :: "nat list"
  assumes "0 < sum_list remaining"
  shows "\<exists>k < length remaining. 1 \<le> remaining ! k"
proof -
  have z: "sum_list xs = 0" if "\<forall>n \<in> set xs. n = 0" for xs :: "nat list"
    using that by (induction xs) simp_all
  have "\<not> (\<forall>n \<in> set remaining. n = 0)"
  proof
    assume "\<forall>n \<in> set remaining. n = 0"
    then have "sum_list remaining = 0" by (rule z)
    with assms show False by simp
  qed
  then obtain n where "n \<in> set remaining" "n \<noteq> 0" by blast
  then show ?thesis
    by (auto simp: in_set_conv_nth)
qed

lemma remaining_placeAt:
  assumes "k < length (snd st)" "group_size g \<le> snd st ! k"
  shows "sum_list (snd (placeAt k g st)) + group_size g = sum_list (snd st)"
    and "length (snd (placeAt k g st)) = length (snd st)"
proof -
  obtain ts rs where st: "st = (ts, rs)" by (cases st)
  with assms have k: "k < length rs" "group_size g \<le> rs ! k" by simp_all
  have "sum_list (rs[k := rs ! k - group_size g]) = sum_list rs + (rs ! k - group_size g) - rs ! k"
    using k(1) by (rule sum_list_update)
  moreover have "rs ! k \<le> sum_list rs"
    using k(1) by (simp add: member_le_sum_list)
  ultimately show "sum_list (snd (placeAt k g st)) + group_size g = sum_list (snd st)"
    using k(2) by (simp add: st placeAt_def)
  show "length (snd (placeAt k g st)) = length (snd st)"
    by (simp add: st placeAt_def)
qed

text \<open>
  As long as the capacities left add up to the number of groups still to place,
  and every group has one member, each placement finds a team.
\<close>

lemma assignBalanced_singles:
  assumes "\<forall>g \<in> set gs. group_size g = 1" "length (fst st) = length (snd st)"
    "sum_list (snd st) = length gs"
  shows "\<exists>st'. assignBalanced gs st = Inr st'"
  using assms
proof (induction gs arbitrary: st)
  case Nil
  then show ?case by simp
next
  case (Cons g gs)
  from Cons.prems have g1: "group_size g = 1" by simp
  from Cons.prems(3) have "0 < sum_list (snd st)" by simp
  then obtain k where k: "k < length (snd st)" "1 \<le> snd st ! k"
    using room_for_one by blast
  with Cons.prems(2) g1 have "\<exists>st'. placeBalanced g st = Inr st'"
    by (intro placeBalanced_succeeds [of k]) simp_all
  then obtain st1 where s1: "placeBalanced g st = Inr st1" ..
  then obtain j where j: "j < length (fst st)" "group_size g \<le> snd st ! j" "st1 = placeAt j g st"
    by (rule placeBalanced_Inr)
  from j(1) Cons.prems(2) have j': "j < length (snd st)" by simp
  have "sum_list (snd st1) = length gs" "length (fst st1) = length (snd st1)"
    using remaining_placeAt [OF j' j(2)] Cons.prems(2,3) g1 length_placeAt [of j g st]
    by (simp_all add: j(3))
  with Cons.IH [of st1] Cons.prems(1) obtain st' where "assignBalanced gs st1 = Inr st'"
    by auto
  with s1 show ?case by simp
qed

lemma assignRandomized_singles:
  assumes "\<forall>g \<in> set gs. group_size g = 1" "length (fst st) = length (snd st)"
    "sum_list (snd st) = length gs"
  shows "\<exists>st'. assignRandomized gs st rand = Inr st'"
  using assms
proof (induction gs arbitrary: st rand)
  case Nil
  then show ?case by simp
next
  case (Cons g gs)
  from Cons.prems have g1: "group_size g = 1" by simp
  from Cons.prems(3) have "0 < sum_list (snd st)" by simp
  then obtain k where k: "k < length (snd st)" "1 \<le> snd st ! k"
    using room_for_one by blast
  with Cons.prems(2) g1 have "\<exists>st' rand'. placeRandomized g st rand = Inr (st', rand')"
    by (intro placeRandomized_succeeds [of k]) simp_all
  then obtain st1 r1 where s1: "placeRandomized g st rand = Inr (st1, r1)" by blast
  then obtain j where j: "j < length (fst st)" "group_size g \<le> snd st ! j" "st1 = placeAt j g st"
    by (rule placeRandomized_Inr)
  from j(1) Cons.prems(2) have j': "j < length (snd st)" by simp
  have "sum_list (snd st1) = length gs" "length (fst st1) = length (snd st1)"
    using remaining_placeAt [OF j' j(2)] Cons.prems(2,3) g1 length_placeAt [of j g st]
    by (simp_all add: j(3))
  with Cons.IH [of st1 r1] Cons.prems(1) obtain st' where "assignRandomized gs st1 r1 = Inr st'"
    by auto
  with s1 show ?case by simp
qed

lemma count_singles:
  fixes gs :: "group list"
  assumes "\<forall>g \<in> set gs. length (members g) = 1"
  shows "length (concat (map members gs)) = length gs"
  using assms by (induction gs) auto

text \<open>
  When every group formed has exactly one member, the call returns, under either
  policy.
\<close>

lemma singles_never_fail:
  assumes "\<forall>g \<in> set (formGroups (map (computePlayerCH c) ps)). group_size g = 1"
  shows "\<exists>res. generateGame h c ps settings = Inr res"
proof -
  let ?enriched = "map (computePlayerCH c) ps"
  let ?sizes = "determineTeamSizes (length ?enriched)"
  let ?st = "(teamsInit ?sizes, ?sizes)"
  obtain sorted amb where
    s: "sortedGroups h settings (formGroups ?enriched) (MathRandom (mathRandom h) 0) = (sorted, amb)"
    by (cases "sortedGroups h settings (formGroups ?enriched) (MathRandom (mathRandom h) 0)") auto
  then have m: "mset sorted = mset (formGroups ?enriched)"
    using mset_sortedGroups [of h settings "formGroups ?enriched" "MathRandom (mathRandom h) 0"] by simp
  then have se: "set sorted = set (formGroups ?enriched)"
    by (rule mset_eq_setD)
  with assms have one: "\<forall>g \<in> set sorted. group_size g = 1"
    by simp
  have "\<forall>g \<in> set sorted. length (members g) = 1"
    using one se size_formGroups by fastforce
  then have "length sorted = length (concat (map members sorted))"
    by (simp add: count_singles)
  also have "\<dots> = size (mset (concat (map members (formGroups ?enriched))))"
    using mset_concat_members [OF m] by (metis size_mset)
  also have "\<dots> = length ?enriched"
    by (simp only: members_formGroups size_mset)
  finally have ls: "length sorted = length ?enriched" .
  have st: "length (fst ?st) = length (snd ?st)" "sum_list (snd ?st) = length sorted"
    by (simp_all add: teamsInit_def determineTeamSizes_sum ls)
  have "\<exists>st'. assignTeams h settings ?enriched = Inr st'"
  proof (cases "randomizeTeams settings = Some True")
    case True
    with s have "assignTeams h settings ?enriched = assignRandomized sorted ?st (pickRand settings amb)"
      by (simp add: assignTeams_def Let_def)
    with assignRandomized_singles [OF one st] show ?thesis by simp
  next
    case False
    with s have "assignTeams h settings ?enriched = assignBalanced sorted ?st"
      by (simp add: assignTeams_def Let_def)
    with assignBalanced_singles [OF one st] show ?thesis by simp
  qed
  then obtain st' where "assignTeams h settings ?enriched = Inr st'" ..
  then show ?thesis
    by (cases st') (simp add: generateGame_def Let_def)
qed


lemma filter_key_single:
  assumes "distinct (map f xs)" "k \<in> f ` set xs"
  shows "length (filter (\<lambda>p. f p = k) xs) = 1"
  using assms
proof (induction xs)
  case Nil
  then show ?case by simp
next
  case (Cons x xs)
  show ?case
  proof (cases "f x = k")
    case True
    with Cons.prems(1) have "k \<notin> f ` set xs" by auto
    then have "filter (\<lambda>p. f p = k) xs = []"
      by (auto simp: filter_empty_conv)
    with True show ?thesis by simp
  next
    case False
    with Cons.prems have "distinct (map f xs)" "k \<in> f ` set xs" by auto
    with Cons.IH False show ?thesis by simp
  qed
qed

lemma formGroups_singles:
  assumes "distinct (map gidOf xs)" "g \<in> set (formGroups xs)"
  shows "group_size g = 1"
proof -
  from assms(2) obtain k g0 where kg: "(k, g0) \<in> set (groupsMap xs)" "g \<in> set (groupsOf g0)"
    by (auto simp: formGroups_def)
  have gr: "grouped (groupsMap xs) xs"
    by (rule grouped_groupsMap)
  from gr kg(1) have "k \<in> gidOf ` set xs"
    unfolding grouped_def by (metis fst_conv imageI)
  moreover from gr kg(1) have "members g0 = filter (\<lambda>p. gidOf p = k) xs"
    unfolding grouped_def by auto
  ultimately have "length (members g0) = 1"
    using filter_key_single [OF assms(1)] by simp
  with kg(2) show ?thesis
    by (simp add: groupsOf_def Let_def)
qed

lemma gidOf_unlinked:
  "linkGroupId p = None \<Longrightarrow> gidOf (computePlayerCH c p) = ''single:'' @ player_id p"
  by (simp add: gidOf_def computePlayerCH_def player.defs playerWithCH.defs)

text \<open>
  A roster without links, whose players have different identifiers, is always
  placed: the call returns, under either policy.
\<close>

lemma unlinked_never_fail:
  assumes "\<forall>p \<in> set ps. linkGroupId p = None" "distinct (map player_id ps)"
  shows "\<exists>res. generateGame h c ps settings = Inr res"
proof -
  have "map gidOf (map (computePlayerCH c) ps) = map (\<lambda>p. ''single:'' @ player_id p) ps"
    using assms(1) by (simp add: gidOf_unlinked)
  also have "\<dots> = map ((@) ''single:'') (map player_id ps)"
    by simp
  finally have "distinct (map gidOf (map (computePlayerCH c) ps))"
    using assms(2) by (simp only: distinct_map inj_on_def) auto
  then have "\<forall>g \<in> set (formGroups (map (computePlayerCH c) ps)). group_size g = 1"
    using formGroups_singles by blast
  then show ?thesis
    by (rule singles_never_fail)
qed

lemma unlinked_never_fail_example:
  "\<exists>res. generateGame h c sevenPlayers settings = Inr res"
  by (rule unlinked_never_fail) (simp_all add: sevenPlayers_def mkPlayer_def)

subsection \<open>A valid link group that is not placed\<close>

text \<open>
  Claim C2 at six players, four of them linked as one group (default settings,
  and the randomized policy with seed 42).  The groups formed have sizes 4, 1 and
  1, so every group has at most 4 members; the plan for six players is two teams
  of three.  The claim says the call never reaches the error and returns teams
  that hold every player; the call ends in the error
  \<^verbatim>\<open>Unable to place group of size 4\<close> under both policies.  The same happens for six
  players linked as three pairs: two pairs take two of the three places of each
  team, and the third pair fits neither.
\<close>

theorem unable_to_place_valid_group:
  "map group_size (formGroups (map (computePlayerCH sampleCourse) sixLinked)) = [4, 1, 1]
   \<and> determineTeamSizes (length sixLinked) = [3, 3]
   \<and> generateGame sampleHost sampleCourse sixLinked (mkSettings 20 None None None)
       = Inl (UnableToPlace 4)
   \<and> generateGame sampleHost sampleCourse sixLinked (mkSettings 20 (Some True) (Some 42) None)
       = Inl (UnableToPlace 4)
   \<and> map group_size (formGroups (map (computePlayerCH sampleCourse) sixPairs)) = [2, 2, 2]
   \<and> generateGame sampleHost sampleCourse sixPairs (mkSettings 20 None None None)
       = Inl (UnableToPlace 2)
   \<and> generateGame sampleHost sampleCourse sixPairs (mkSettings 20 (Some True) (Some 42) None)
       = Inl (UnableToPlace 2)"
  by code_simp

section \<open>Team ranking\<close>

text \<open>
  Claim C8.  In every result returned the teams are sorted ascending by member
  count, ties ascending by \<open>teamHandicap\<close>; their ids are \<open>1..k\<close> in that order;
  and every team's \<open>teamHandicap\<close> is the sum of its members' course handicaps.
\<close>

theorem teams_sorted_and_numbered:
  assumes "generateGame h c ps settings = Inr res"
  shows "sorted_wrt (\<lambda>a b. length (players a) < length (players b) \<or>
                        length (players a) = length (players b) \<and> teamHandicap a \<le> teamHandicap b)
           (teams res)
       \<and> map team_id (teams res) = [1..<Suc (length (teams res))]
       \<and> (\<forall>t \<in> set (teams res). teamHandicap t = sum_list (map courseHandicap (players t)))"
proof -
  from assms obtain ts where
    t: "teams res = sortedTeams (map withHandicap ts)"
    by (rule generateGame_Inr)
  have "sorted_wrt teamBefore (teams res)"
    unfolding t by (rule sorted_sortedTeams)
  then have one: "sorted_wrt (\<lambda>a b. length (players a) < length (players b) \<or>
                        length (players a) = length (players b) \<and> teamHandicap a \<le> teamHandicap b)
           (teams res)"
    by (simp add: teamBefore_def [abs_def])
  have two: "map team_id (teams res) = [1..<Suc (length (teams res))]"
    unfolding t sortedTeams_def by (simp only: team_id_renumber length_renumber)
  have three: "\<forall>t \<in> set (teams res). teamHandicap t = sum_list (map courseHandicap (players t))"
    unfolding t using teamHandicap_sortedTeams by blast
  from one two three show ?thesis by blast
qed

theorem teams_sorted_and_numbered_witness:
  "sevenBalanced = Inr (projr sevenBalanced)
   \<and> map team_id (teams (projr sevenBalanced)) = [1, 2]
   \<and> map (\<lambda>t. length (players t)) (teams (projr sevenBalanced)) = [3, 4]
   \<and> map teamHandicap (teams (projr sevenBalanced)) = [27, 29]"
proof -
  have "\<not> isl sevenBalanced"
    by code_simp
  then have e: "sevenBalanced = Inr (projr sevenBalanced)"
    by simp
  have v: "map (\<lambda>t. length (players t)) (teams (projr sevenBalanced)) = [3, 4]"
    "map teamHandicap (teams (projr sevenBalanced)) = [27, 29]"
    by code_simp+
  then have "length (teams (projr sevenBalanced)) = 2"
    by (metis length_map length_Cons list.size(3) one_add_one Suc_eq_plus1 numeral_2_eq_2)
  with teams_sorted_and_numbered [OF e [unfolded sevenBalanced_def], folded sevenBalanced_def] e v
  show ?thesis by (simp add: upt_rec)
qed

section \<open>Number of payouts\<close>

lemma length_placed_teams:
  assumes "assignTeams h settings enriched = Inr (ts, remaining)"
  shows "length ts = length (determineTeamSizes (length enriched))"
proof -
  from assms obtain sorted where "placed (determineTeamSizes (length enriched)) sorted (ts, remaining)"
    by (rule assignTeams_placed)
  then show ?thesis
    by (simp add: placed_def fits_def)
qed

lemma determineTeamSizes_nonempty: "determineTeamSizes n \<noteq> []"
  by (auto simp: determineTeamSizes_def Let_def)

text \<open>
  The claim that the number of payouts is \<open>clamp(paidPlaces, 1, numberOfTeams)\<close>
  fails where \<open>paidPlaces\<close> is not a whole number: with nine players (three
  teams), an entry fee of 20 and \<open>paidPlaces = 2.5\<close> the capped number is 2.5, which
  matches no \<^verbatim>\<open>case\<close>; the loop of the \<^verbatim>\<open>default\<close> branch runs for
  \<open>i = 0, 1, 2\<close> and there are three payouts.
\<close>

theorem payout_count_counterexample:
  "summary nineFractional = Some ([3, 3, 3], 180, [80, 60, 40])
   \<and> clamp (5 / 2) 1 3 = 5 / 2
   \<and> length (basePayoutRatios (max 1 (5 / 2)) 3) = 3"
  by code_simp

text \<open>
  Claim C9, amended.  In every result returned the number of payouts is
  \<open>clamp(paidPlaces, 1, numberOfTeams)\<close> rounded up to a whole number, with
  \<open>paidPlaces\<close> taken as 3 when unset; it is \<open>clamp(paidPlaces, 1, numberOfTeams)\<close>
  itself whenever \<open>paidPlaces\<close> is a whole number or unset.  The places are
  numbered \<open>1..n\<close>.  (There is always at least one team.)
\<close>

theorem payout_count:
  assumes "generateGame h c ps settings = Inr res"
  shows "int (length (payouts res))
           = \<lceil>clamp (case paidPlaces settings of None \<Rightarrow> 3 | Some n \<Rightarrow> n) 1 (of_nat (length (teams res)))\<rceil>
       \<and> ((case paidPlaces settings of None \<Rightarrow> 3 | Some n \<Rightarrow> n) \<in> \<int> \<longrightarrow>
            of_nat (length (payouts res))
              = clamp (case paidPlaces settings of None \<Rightarrow> 3 | Some n \<Rightarrow> n) 1 (of_nat (length (teams res))))
       \<and> map place (payouts res) = [1..<Suc (length (payouts res))]
       \<and> 1 \<le> length (teams res)"
proof -
  let ?pp = "case paidPlaces settings of None \<Rightarrow> 3 | Some n \<Rightarrow> n"
  let ?T = "of_nat (length (teams res)) :: rat"
  from assms obtain ts remaining where
    a: "assignTeams h settings (map (computePlayerCH c) ps) = Inr (ts, remaining)"
    and t: "teams res = sortedTeams (map withHandicap ts)"
    and p: "payouts res = mkPayouts (roundPayoutsPrefer10Then5
        (map (\<lambda>r. r * of_int (prizePool res))
          (basePayoutRatios (max 1 ?pp) (length (teams res))))
        (prizePool res))"
    by (rule generateGame_Inr)
  have "length (teams res) = length (determineTeamSizes (length ps))"
    unfolding t using length_placed_teams [OF a] by (simp add: length_sortedTeams)
  then have k: "1 \<le> length (teams res)"
    using determineTeamSizes_nonempty [of "length ps"] by (cases "determineTeamSizes (length ps)") auto
  then have kT: "1 \<le> ?T"
    by simp
  have len: "length (payouts res) = nat \<lceil>max 1 (min (max 1 ?pp) ?T)\<rceil>"
    unfolding p by (simp only: length_mkPayouts length_roundPayouts length_map length_basePayoutRatios)
  have c: "max 1 (min (max 1 ?pp) ?T) = clamp ?pp 1 ?T"
    using kT unfolding clamp_def by linarith
  have c1: "1 \<le> clamp ?pp 1 ?T"
    using kT unfolding clamp_def by linarith
  then have "1 \<le> \<lceil>clamp ?pp 1 ?T\<rceil>"
    by (simp add: le_ceiling_iff)
  with len c have one: "int (length (payouts res)) = \<lceil>clamp ?pp 1 ?T\<rceil>"
    by simp
  have two: "of_nat (length (payouts res)) = clamp ?pp 1 ?T" if "?pp \<in> \<int>"
  proof -
    from that have "clamp ?pp 1 ?T \<in> \<int>"
      unfolding clamp_def min_def max_def by auto
    then have "of_int \<lceil>clamp ?pp 1 ?T\<rceil> = clamp ?pp 1 ?T"
      by (metis Ints_cases ceiling_of_int)
    with one show ?thesis
      by (metis of_int_of_nat_eq)
  qed
  have three: "map place (payouts res) = [1..<Suc (length (payouts res))]"
    unfolding p by (simp only: place_mkPayouts length_mkPayouts)
  from one two three k show ?thesis by blast
qed

theorem payout_count_witness:
  "sevenBalanced = Inr (projr sevenBalanced)
   \<and> length (payouts (projr sevenBalanced)) = 2
   \<and> map place (payouts (projr sevenBalanced)) = [1, 2]
   \<and> nineFractional = Inr (projr nineFractional)
   \<and> length (payouts (projr nineFractional)) = 3"
proof -
  have "\<not> isl nineFractional"
    by code_simp
  then have e9: "nineFractional = Inr (projr nineFractional)"
    by simp
  have l9: "length (teams (projr nineFractional)) = 3"
    by code_simp
  have c9: "\<lceil>clamp (case paidPlaces (mkSettings 20 None None (Some (5 / 2))) of None \<Rightarrow> 3 | Some n \<Rightarrow> n)
      1 (of_nat 3)\<rceil> = 3"
  proof -
    have "\<lceil>5 / 2 :: rat\<rceil> = 3"
      by (simp add: ceiling_unique)
    then show ?thesis
      by (simp add: clamp_def mkSettings_def)
  qed
  from payout_count [OF e9 [unfolded nineFractional_def], folded nineFractional_def]
  have "int (length (payouts (projr nineFractional))) = 3"
    unfolding l9 using c9 by simp
  then have n9: "length (payouts (projr nineFractional)) = 3"
    by simp
  have "\<not> isl sevenBalanced"
    by code_simp
  then have e: "sevenBalanced = Inr (projr sevenBalanced)"
    by simp
  have l: "length (teams (projr sevenBalanced)) = 2"
    by code_simp
  have c: "\<lceil>clamp (case paidPlaces (mkSettings 20 None None None) of None \<Rightarrow> 3 | Some n \<Rightarrow> n) 1 (of_nat 2)\<rceil> = 2"
    by (simp add: clamp_def mkSettings_def)
  note pc = payout_count [OF e [unfolded sevenBalanced_def], folded sevenBalanced_def]
  from pc have "int (length (payouts (projr sevenBalanced))) = 2"
    unfolding l using c by simp
  then have n: "length (payouts (projr sevenBalanced)) = 2"
    by simp
  from pc have "map place (payouts (projr sevenBalanced)) = [1..<Suc (length (payouts (projr sevenBalanced)))]"
    by blast
  then have "map place (payouts (projr sevenBalanced)) = [1..<Suc 2]"
    unfolding n .
  moreover have "[1..<Suc 2] = [1, 2]"
    by code_simp
  ultimately show ?thesis
    using e n e9 n9 by simp
qed

section \<open>Oversized link groups\<close>

lemma chunkFrom_map:
  "chunkFrom i ms = map (\<lambda>j. take 4 (drop (i + 4 * j) ms)) [0..<(length ms - i + 3) div 4]"
proof (induction i ms rule: chunkFrom.induct)
  case (1 i ms)
  show ?case
  proof (cases "i < length ms")
    case False
    then have "(length ms - i + 3) div 4 = 0" by simp
    with False show ?thesis
      by (subst chunkFrom.simps) simp
  next
    case True
    define N where "N = (length ms - (i + 4) + 3) div 4"
    have n: "(length ms - i + 3) div 4 = Suc N"
      using True unfolding N_def by (cases "length ms - i < 4") (auto simp: div_eq_0_iff)
    have "chunkFrom i ms = take 4 (drop i ms) # chunkFrom (i + 4) ms"
      using True by (subst chunkFrom.simps) simp
    also have "chunkFrom (i + 4) ms = map (\<lambda>j. take 4 (drop (i + 4 + 4 * j) ms)) [0..<N]"
      using 1 [OF True] unfolding N_def .
    also have "\<dots> = map (\<lambda>j. take 4 (drop (i + 4 * j) ms)) (map Suc [0..<N])"
      by (simp add: o_def add.assoc)
    also have "take 4 (drop i ms) # \<dots> = map (\<lambda>j. take 4 (drop (i + 4 * j) ms)) (0 # map Suc [0..<N])"
      by simp
    also have "0 # map Suc [0..<N] = [0..<Suc N]"
      by (simp add: map_Suc_upt upt_conv_Cons del: upt_Suc)
    finally show ?thesis
      unfolding n .
  qed
qed

lemma enumerate_map_upt:
  "map (\<lambda>(idx, x). f idx x) (enumerate 0 (map c [0..<N])) = map (\<lambda>idx. f idx (c idx)) [0..<N]"
  unfolding enumerate_nth_map by (rule nth_equalityI) auto

text \<open>The groups which an entry with more than four members contributes.\<close>

lemma groupsOf_oversized:
  assumes "4 < length (members g)"
  shows "groupsOf g =
     map (\<lambda>idx. \<lparr>group_id = group_id g @ ''#'' @ showNat (idx + 1),
                 members = take 4 (drop (4 * idx) (members g)),
                 group_size = length (take 4 (drop (4 * idx) (members g))),
                 strength = of_int (sum_list (map courseHandicap (take 4 (drop (4 * idx) (members g)))))
                              / of_nat (length (take 4 (drop (4 * idx) (members g))))\<rparr>)
       [0..<(length (members g) + 3) div 4]"
proof -
  have "groupsOf g = map (\<lambda>(idx, chunk). chunkGroup (g\<lparr>group_size := length (members g)\<rparr>) idx chunk)
      (enumerate 0 (chunkFrom 0 (members g)))"
    using assms by (simp add: groupsOf_def Let_def)
  also have "\<dots> = map (\<lambda>idx. chunkGroup (g\<lparr>group_size := length (members g)\<rparr>) idx
      (take 4 (drop (0 + 4 * idx) (members g)))) [0..<(length (members g) - 0 + 3) div 4]"
    unfolding chunkFrom_map [of 0 "members g"] by (rule enumerate_map_upt)
  finally show ?thesis
    by (simp add: chunkGroup_def sumCH_sum_list)
qed

lemma members_groupsOf_subset:
  assumes "g' \<in> set (groupsOf g)" "p \<in> set (members g')"
  shows "p \<in> set (members g)"
proof -
  from assms have "p \<in> set (concat (map members (groupsOf g)))"
    by auto
  then show ?thesis
    by (simp only: members_groupsOf)
qed

lemma formGroups_other_keys:
  assumes gr: "\<And>k g. (k, g) \<in> set m \<Longrightarrow> members g = filter (\<lambda>p. gidOf p = k) xs"
    and nk: "gid \<notin> fst ` set m"
    and g': "g' \<in> set (concat (map (\<lambda>(k, g). groupsOf g) m))" and p: "p \<in> set (members g')"
  shows "gidOf p \<noteq> gid"
proof -
  from g' obtain k g where kg: "(k, g) \<in> set m" "g' \<in> set (groupsOf g)"
    by auto
  with p have "p \<in> set (members g)"
    using members_groupsOf_subset by blast
  with gr [OF kg(1)] have "gidOf p = k"
    by simp
  moreover from kg(1) nk have "k \<noteq> gid"
    by force
  ultimately show ?thesis by simp
qed

text \<open>
  Claim C7.  Let \<open>linked\<close> be the players of the roster with the group key
  \<open>gid\<close> (for a linked player, the link identifier), in roster order, and let there
  be more than four.  Then the groups formed contain, next to each other, one
  group per index \<open>idx < \<lceil>n/4\<rceil>\<close> whose members are the chunk
  \<open>linked[4*idx .. 4*idx+3]\<close>, whose identifier is \<open>gid#(idx+1)\<close>, whose size is the
  chunk's length and whose strength is the chunk's average course handicap; no
  other group formed has a member with that key.  The chunks have between one
  and four members and together are \<open>linked\<close>.  A group of five gives a group of
  four and a group of one.
\<close>

theorem oversized_group_chunked:
  assumes "linked = filter (\<lambda>p. gidOf p = gid) enriched" "4 < length linked"
  shows "(\<exists>pre post.
            formGroups enriched =
              pre @ map (\<lambda>idx. \<lparr>group_id = gid @ ''#'' @ showNat (idx + 1),
                                 members = take 4 (drop (4 * idx) linked),
                                 group_size = length (take 4 (drop (4 * idx) linked)),
                                 strength = of_int (sum_list (map courseHandicap (take 4 (drop (4 * idx) linked))))
                                              / of_nat (length (take 4 (drop (4 * idx) linked)))\<rparr>)
                      [0..<(length linked + 3) div 4] @ post
            \<and> (\<forall>g \<in> set (pre @ post). \<forall>p \<in> set (members g). gidOf p \<noteq> gid))
       \<and> concat (map (\<lambda>idx. take 4 (drop (4 * idx) linked)) [0..<(length linked + 3) div 4]) = linked
       \<and> (\<forall>idx < (length linked + 3) div 4.
            1 \<le> length (take 4 (drop (4 * idx) linked)) \<and> length (take 4 (drop (4 * idx) linked)) \<le> 4)
       \<and> (length linked = 5 \<longrightarrow>
            map (\<lambda>idx. length (take 4 (drop (4 * idx) linked))) [0..<(length linked + 3) div 4] = [4, 1])"
proof -
  let ?F = "\<lambda>(k :: string, g). groupsOf g"
  have gm: "grouped (groupsMap enriched) enriched"
    by (rule grouped_groupsMap)
  then have d: "distinct (map fst (groupsMap enriched))"
    and ks: "fst ` set (groupsMap enriched) = gidOf ` set enriched"
    and en: "\<And>k g. (k, g) \<in> set (groupsMap enriched) \<Longrightarrow>
               group_id g = k \<and> members g = filter (\<lambda>p. gidOf p = k) enriched"
    by (auto simp: grouped_def)
  from assms have "linked \<noteq> []" by auto
  then obtain q where "q \<in> set enriched" "gidOf q = gid"
    unfolding assms(1) by (auto simp: filter_empty_conv)
  then have "gid \<in> fst ` set (groupsMap enriched)"
    unfolding ks by blast
  then obtain g where g: "(gid, g) \<in> set (groupsMap enriched)"
    by force
  then obtain m1 m2 where m: "groupsMap enriched = m1 @ (gid, g) # m2"
    by (auto simp: in_set_conv_decomp)
  from en [OF g] assms(1) have gl: "group_id g = gid" "members g = linked"
    by simp_all
  have f: "formGroups enriched = concat (map ?F m1) @ groupsOf g @ concat (map ?F m2)"
    by (simp add: formGroups_def m)
  have other: "gidOf p \<noteq> gid"
    if "g' \<in> set (concat (map ?F m1) @ concat (map ?F m2))" "p \<in> set (members g')" for g' p
  proof -
    from that(1) have "g' \<in> set (concat (map ?F (m1 @ m2)))"
      by simp
    moreover have "gid \<notin> fst ` set (m1 @ m2)"
      using d unfolding m by auto
    moreover have "members g0 = filter (\<lambda>p. gidOf p = k) enriched" if "(k, g0) \<in> set (m1 @ m2)" for k g0
      using en [of k g0] that unfolding m by auto
    ultimately show ?thesis
      using that(2) formGroups_other_keys [of "m1 @ m2" enriched gid g' p] by blast
  qed
  have one: "\<exists>pre post.
            formGroups enriched =
              pre @ map (\<lambda>idx. \<lparr>group_id = gid @ ''#'' @ showNat (idx + 1),
                                 members = take 4 (drop (4 * idx) linked),
                                 group_size = length (take 4 (drop (4 * idx) linked)),
                                 strength = of_int (sum_list (map courseHandicap (take 4 (drop (4 * idx) linked))))
                                              / of_nat (length (take 4 (drop (4 * idx) linked)))\<rparr>)
                      [0..<(length linked + 3) div 4] @ post
            \<and> (\<forall>g \<in> set (pre @ post). \<forall>p \<in> set (members g). gidOf p \<noteq> gid)"
    using f other groupsOf_oversized [of g] assms(2) unfolding gl
    by (intro exI [of _ "concat (map ?F m1)"] exI [of _ "concat (map ?F m2)"]) simp
  have "concat (chunkFrom 0 linked) = linked"
    by (simp add: concat_chunkFrom)
  then have two: "concat (map (\<lambda>idx. take 4 (drop (4 * idx) linked)) [0..<(length linked + 3) div 4]) = linked"
    unfolding chunkFrom_map [of 0 linked] by simp
  have three: "1 \<le> length (take 4 (drop (4 * idx) linked)) \<and> length (take 4 (drop (4 * idx) linked)) \<le> 4"
    if "idx < (length linked + 3) div 4" for idx
  proof -
    from that have "4 * idx < length linked" by linarith
    then show ?thesis by simp
  qed
  have four: "map (\<lambda>idx. length (take 4 (drop (4 * idx) linked))) [0..<(length linked + 3) div 4] = [4, 1]"
    if "length linked = 5"
  proof -
    have "[0..<(5 + 3) div 4] = [0, Suc 0]"
      by (simp add: upt_rec)
    then show ?thesis
      unfolding that by (simp add: that)
  qed
  from one two three four show ?thesis by blast
qed

theorem oversized_group_chunked_witness:
  "length (filter (\<lambda>p. gidOf p = ''grp1'') fiveLinked) = 5
   \<and> map (\<lambda>idx. length (take 4 (drop (4 * idx) (filter (\<lambda>p. gidOf p = ''grp1'') fiveLinked))))
         [0..<(length (filter (\<lambda>p. gidOf p = ''grp1'') fiveLinked) + 3) div 4] = [4, 1]
   \<and> map group_id (formGroups fiveLinked) = [''grp1#1'', ''grp1#2'', ''single:f'']
   \<and> map group_size (formGroups fiveLinked) = [4, 1, 1]
   \<and> map strength (formGroups fiveLinked) = [13 / 2, 9, 10]"
proof -
  have l: "length (filter (\<lambda>p. gidOf p = ''grp1'') fiveLinked) = 5"
    by code_simp
  then have "4 < length (filter (\<lambda>p. gidOf p = ''grp1'') fiveLinked)"
    by simp
  from oversized_group_chunked [OF refl this] l
  have "map (\<lambda>idx. length (take 4 (drop (4 * idx) (filter (\<lambda>p. gidOf p = ''grp1'') fiveLinked))))
         [0..<(length (filter (\<lambda>p. gidOf p = ''grp1'') fiveLinked) + 3) div 4] = [4, 1]"
    by blast
  moreover have "map group_id (formGroups fiveLinked) = [''grp1#1'', ''grp1#2'', ''single:f'']"
    "map group_size (formGroups fiveLinked) = [4, 1, 1]"
    "map strength (formGroups fiveLinked) = [13 / 2, 9, 10]"
    by code_simp+
  ultimately show ?thesis
    using l by blast
qed

section \<open>Payout conservation\<close>

lemma clampFrom_bounded: "x \<in> set (clampFrom prev xs) \<Longrightarrow> x \<le> prev"
proof (induction xs arbitrary: prev)
  case Nil
  then show ?case by simp
next
  case (Cons a xs)
  define a' where "a' = (if a > prev then prev else a)"
  have le: "a' \<le> prev" by (simp add: a'_def)
  from Cons.prems have "x = a' \<or> x \<in> set (clampFrom a' xs)"
    by (simp add: Let_def a'_def)
  then show ?case
    using le Cons.IH [of a'] by auto
qed

lemma clampFrom_sorted: "sorted_wrt (\<ge>) (clampFrom prev xs)"
  by (induction xs arbitrary: prev) (auto simp: Let_def dest: clampFrom_bounded)

lemma enforceNonIncreasing_sorted: "sorted_wrt (\<ge>) (enforceNonIncreasing xs)"
  by (cases xs) (auto simp: enforceNonIncreasing_def clampFrom_sorted dest: clampFrom_bounded)

lemma roundPayouts_sorted: "sorted_wrt (\<ge>) (roundPayoutsPrefer10Then5 vs tot)"
  by (simp add: roundPayoutsPrefer10Then5_def tryRound_def Let_def enforceNonIncreasing_sorted)

text \<open>The payouts of every result are non-increasing by place.\<close>

lemma payouts_non_increasing:
  assumes "generateGame h c ps settings = Inr res"
  shows "sorted_wrt (\<ge>) (map amount (payouts res))"
proof -
  from assms obtain vs where "payouts res = mkPayouts (roundPayoutsPrefer10Then5 vs (prizePool res))"
    by (rule generateGame_Inr)
  then show ?thesis
    by (simp only: amount_mkPayouts roundPayouts_sorted)
qed

subsection \<open>What the rounding keeps\<close>

lemma good_Cons: "good step (x # xs) \<longleftrightarrow> 0 \<le> x \<and> step dvd x \<and> good step xs"
  by (auto simp: good_def)

lemma good_Nil: "good step []"
  by (simp add: good_def)

lemma good_zero:
  fixes step x :: int
  assumes "0 < step" "0 \<le> x" "step dvd x" "x < step"
  shows "x = 0"
proof (rule ccontr)
  assume "x \<noteq> 0"
  with assms(2) have "0 < x" by simp
  with assms(3) have "step \<le> x" by (rule zdvd_imp_le)
  with assms(4) show False by simp
qed

lemma adjustPass_inv:
  assumes "0 < step" "dir = 1 \<or> dir = - 1"
  shows "good step xs \<Longrightarrow> 0 \<le> diff \<Longrightarrow> adjustPass step dir xs diff = (ys, d, a) \<Longrightarrow>
     good step ys \<and> 0 \<le> d \<and> sum_list ys = sum_list xs + dir * (diff - d) \<and>
     (\<not> a \<longrightarrow> ys = xs \<and> d = diff \<and>
        (step \<le> diff \<longrightarrow> (dir = 1 \<longrightarrow> xs = []) \<and> (dir = - 1 \<longrightarrow> sum_list xs = 0)))"
proof (induction xs arbitrary: diff ys d a)
  case Nil
  then show ?case by (simp add: good_Nil)
next
  case (Cons x xs)
  from Cons.prems(1) have x: "0 \<le> x" "step dvd x" and gx: "good step xs"
    by (simp_all add: good_Cons)
  show ?case
  proof (cases "step \<le> diff")
    case False
    with Cons.prems show ?thesis by simp
  next
    case True
    note ge = this
    show ?thesis
    proof (cases "dir > 0 \<or> (dir < 0 \<and> x + dir * step \<ge> 0)")
      case True
      obtain ys' d' a' where r: "adjustPass step dir xs (diff - step) = (ys', d', a')"
        by (cases "adjustPass step dir xs (diff - step)") auto
      from ge have "0 \<le> diff - step" by simp
      from Cons.IH [OF gx this r]
      have ih: "good step ys'" "0 \<le> d'" "sum_list ys' = sum_list xs + dir * (diff - step - d')"
        by simp_all
      from Cons.prems(3) ge True r have e: "ys = (x + dir * step) # ys'" "d = d'" "a = True"
        by (simp_all add: Let_def)
      have "0 \<le> x + dir * step"
        using True assms x by auto
      moreover have "step dvd x + dir * step"
        using x(2) by simp
      ultimately have "good step ys"
        using ih(1) e(1) by (simp add: good_Cons)
      moreover have "sum_list ys = sum_list (x # xs) + dir * (diff - d)"
        using ih(3) e by (simp add: algebra_simps)
      ultimately show ?thesis
        using ih(2) e by simp
    next
      case False
      obtain ys' d' a' where r: "adjustPass step dir xs diff = (ys', d', a')"
        by (cases "adjustPass step dir xs diff") auto
      from Cons.IH [OF gx Cons.prems(2) r]
      have ih: "good step ys'" "0 \<le> d'" "sum_list ys' = sum_list xs + dir * (diff - d')"
        "\<not> a' \<longrightarrow> ys' = xs \<and> d' = diff \<and>
           (step \<le> diff \<longrightarrow> (dir = 1 \<longrightarrow> xs = []) \<and> (dir = - 1 \<longrightarrow> sum_list xs = 0))"
        by simp_all
      from Cons.prems(3) ge False r have e: "ys = x # ys'" "d = d'" "a = a'"
        by (simp_all add: Let_def)
      from False assms(2) have m: "dir = - 1" "x - step < 0"
        by auto
      then have "x = 0"
        using good_zero [OF assms(1) x] by simp
      with ih e m x gx show ?thesis
        by (auto simp: good_Cons)
    qed
  qed
qed

lemma adjustLoop_inv:
  "0 < step \<Longrightarrow> dir = 1 \<or> dir = - 1 \<Longrightarrow> good step xs \<Longrightarrow> 0 \<le> diff \<Longrightarrow>
   (dir = - 1 \<longrightarrow> diff \<le> sum_list xs) \<Longrightarrow>
     \<exists>d. 0 \<le> d \<and> (xs \<noteq> [] \<longrightarrow> d < step) \<and> good step (adjustLoop step dir xs diff) \<and>
         sum_list (adjustLoop step dir xs diff) = sum_list xs + dir * (diff - d)"
proof (induction step dir xs diff rule: adjustLoop.induct)
  case (1 step dir rounded diff)
  note pos = "1.prems"(1) and dir = "1.prems"(2) and gd = "1.prems"(3) and nn = "1.prems"(4)
    and le = "1.prems"(5)
  show ?case
  proof (cases "0 < step \<and> diff \<ge> step")
    case False
    with pos have lt: "diff < step" by simp
    then have "adjustLoop step dir rounded diff = rounded"
      by (subst adjustLoop.simps) simp
    with gd nn lt show ?thesis
      by (intro exI [of _ diff]) simp
  next
    case True
    obtain ys d a where p: "adjustPass step dir rounded diff = (ys, d, a)"
      by (cases "adjustPass step dir rounded diff") auto
    from adjustPass_inv [OF pos dir gd nn p]
    have inv: "good step ys" "0 \<le> d" "sum_list ys = sum_list rounded + dir * (diff - d)"
      "\<not> a \<longrightarrow> ys = rounded \<and> d = diff \<and>
         (step \<le> diff \<longrightarrow> (dir = 1 \<longrightarrow> rounded = []) \<and> (dir = - 1 \<longrightarrow> sum_list rounded = 0))"
      by simp_all
    have len: "length ys = length rounded"
      using length_adjustPass [OF p] .
    show ?thesis
    proof (cases a)
      case False
      with True p have e: "adjustLoop step dir rounded diff = ys"
        by (subst adjustLoop.simps) simp
      from False inv(4) True have n: "ys = rounded" "d = diff"
        "dir = 1 \<longrightarrow> rounded = []" "dir = - 1 \<longrightarrow> sum_list rounded = 0"
        by simp_all
      from n(4) le True have "dir \<noteq> - 1"
        by auto
      with dir n(3) have "rounded = []" by simp
      with e n inv show ?thesis
        by (intro exI [of _ diff]) simp
    next
      case a: True
      with True p have e: "adjustLoop step dir rounded diff = adjustLoop step dir ys d"
        by (subst adjustLoop.simps) simp
      have "dir = - 1 \<longrightarrow> d \<le> sum_list ys"
        using inv(3) le by auto
      from "1.IH" [OF True p [symmetric] refl _ pos dir inv(1,2) this] a
      obtain d' where d': "0 \<le> d'" "ys \<noteq> [] \<longrightarrow> d' < step" "good step (adjustLoop step dir ys d)"
        "sum_list (adjustLoop step dir ys d) = sum_list ys + dir * (d - d')"
        by auto
      from len have "rounded \<noteq> [] \<longrightarrow> ys \<noteq> []"
        by auto
      with d' inv(3) e show ?thesis
        by (intro exI [of _ d']) (simp add: algebra_simps)
    qed
  qed
qed

lemma clampFrom_sum: "sum_list (clampFrom prev xs) \<le> sum_list xs"
proof (induction xs arbitrary: prev)
  case Nil
  then show ?case by simp
next
  case (Cons x xs)
  define x' where "x' = (if x > prev then prev else x)"
  have "x' \<le> x" by (simp add: x'_def)
  with Cons.IH [of x'] show ?case
    by (simp add: Let_def x'_def [symmetric])
qed

lemma clampFrom_good:
  "0 \<le> prev \<Longrightarrow> step dvd prev \<Longrightarrow> good step xs \<Longrightarrow> good step (clampFrom prev xs)"
proof (induction xs arbitrary: prev)
  case Nil
  then show ?case by (simp add: good_Nil)
next
  case (Cons x xs)
  define x' where "x' = (if x > prev then prev else x)"
  from Cons.prems have "0 \<le> x'" "step dvd x'" "good step xs"
    by (auto simp: x'_def good_Cons)
  with Cons.IH [of x'] show ?case
    by (simp add: Let_def x'_def [symmetric] good_Cons)
qed

lemma clampFrom_id: "\<forall>x \<in> set xs. x \<le> prev \<Longrightarrow> sorted_wrt (\<ge>) xs \<Longrightarrow> clampFrom prev xs = xs"
  by (induction xs arbitrary: prev) (auto simp: Let_def)

lemma clampFrom_nonneg: "0 \<le> prev \<Longrightarrow> \<forall>x \<in> set xs. 0 \<le> x \<Longrightarrow> \<forall>y \<in> set (clampFrom prev xs). 0 \<le> y"
proof (induction xs arbitrary: prev)
  case Nil
  then show ?case by simp
next
  case (Cons x xs)
  define x' where "x' = (if x > prev then prev else x)"
  from Cons.prems have "0 \<le> x'" "\<forall>x \<in> set xs. 0 \<le> x"
    by (auto simp: x'_def)
  with Cons.IH [of x'] show ?case
    by (simp add: Let_def x'_def [symmetric])
qed

lemma enforceNonIncreasing_sum: "sum_list (enforceNonIncreasing xs) \<le> sum_list xs"
  by (cases xs) (auto simp: enforceNonIncreasing_def clampFrom_sum)

lemma enforceNonIncreasing_good: "good step xs \<Longrightarrow> good step (enforceNonIncreasing xs)"
  by (cases xs) (auto simp: enforceNonIncreasing_def good_Cons good_Nil clampFrom_good)

lemma enforceNonIncreasing_id: "sorted_wrt (\<ge>) xs \<Longrightarrow> enforceNonIncreasing xs = xs"
  by (cases xs) (auto simp: enforceNonIncreasing_def clampFrom_id)

lemma good_sum: "good step xs \<Longrightarrow> step dvd sum_list xs \<and> 0 \<le> sum_list xs"
  by (induction xs) (auto simp: good_Cons)

lemma good_rounded: "0 < step \<Longrightarrow> good step (map (\<lambda>v. max 0 (round (v / of_int step) * step)) vs)"
  by (auto simp: good_def max_def)

text \<open>
  One rounding attempt, for a pool \<open>tot \<ge> 0\<close>: the amounts are non-negative
  multiples of the step, non-increasing, and their sum stays below \<open>tot + step\<close>;
  when the step divides the pool and there is at least one place, the sum does
  not exceed the pool.
\<close>

lemma tryRound_spec:
  assumes "0 < step" "0 \<le> tot"
  shows "good step (fst (tryRound vs tot step))
       \<and> sorted_wrt (\<ge>) (fst (tryRound vs tot step))
       \<and> snd (tryRound vs tot step) = sum_list (fst (tryRound vs tot step))
       \<and> snd (tryRound vs tot step) < tot + step
       \<and> (step dvd tot \<and> vs \<noteq> [] \<longrightarrow> snd (tryRound vs tot step) \<le> tot)"
proof -
  define R0 where "R0 = map (\<lambda>v. max 0 (round (v / of_int step) * step)) vs"
  define diff0 where "diff0 = tot - sum_list R0"
  define P where "P = adjustLoop step (sgn diff0) R0 \<bar>diff0\<bar>"
  have t: "tryRound vs tot step = (enforceNonIncreasing P, sum_list (enforceNonIncreasing P))"
    by (simp add: tryRound_def Let_def P_def diff0_def R0_def)
  have g0: "good step R0"
    unfolding R0_def using assms(1) by (rule good_rounded)
  have ne: "R0 \<noteq> [] \<longleftrightarrow> vs \<noteq> []"
    by (simp add: R0_def)
  have "\<exists>d. 0 \<le> d \<and> (vs \<noteq> [] \<longrightarrow> d < step) \<and> good step P \<and> (sum_list P = tot - d \<or> sum_list P = tot + d)"
  proof (cases "diff0 = 0")
    case True
    then have "P = R0"
      unfolding P_def using assms(1) by (subst adjustLoop.simps) simp
    with True g0 assms(1) show ?thesis
      by (intro exI [of _ 0]) (simp add: diff0_def)
  next
    case False
    then have dir: "sgn diff0 = 1 \<or> sgn diff0 = - 1"
      by (auto simp: sgn_if)
    have "sgn diff0 = - 1 \<longrightarrow> \<bar>diff0\<bar> \<le> sum_list R0"
      using assms(2) by (auto simp: diff0_def sgn_if split: if_splits)
    from adjustLoop_inv [OF assms(1) dir g0 _ this]
    obtain d where d: "0 \<le> d" "R0 \<noteq> [] \<longrightarrow> d < step" "good step P"
      "sum_list P = sum_list R0 + sgn diff0 * (\<bar>diff0\<bar> - d)"
      unfolding P_def by auto
    have "sum_list P = tot - d \<or> sum_list P = tot + d"
      using d(4) False by (auto simp: diff0_def sgn_if split: if_splits)
    with d ne show ?thesis
      by (intro exI [of _ d]) simp
  qed
  then obtain d where d: "0 \<le> d" "vs \<noteq> [] \<longrightarrow> d < step" "good step P"
    "sum_list P = tot - d \<or> sum_list P = tot + d"
    by blast
  have one: "good step (enforceNonIncreasing P)"
    using d(3) by (rule enforceNonIncreasing_good)
  have two: "sorted_wrt (\<ge>) (enforceNonIncreasing P)"
    by (rule enforceNonIncreasing_sorted)
  have le: "sum_list (enforceNonIncreasing P) \<le> sum_list P"
    by (rule enforceNonIncreasing_sum)
  have three: "sum_list (enforceNonIncreasing P) < tot + step"
  proof (cases "vs = []")
    case True
    then have "R0 = []" by (simp add: R0_def)
    then have "P = []"
      using length_adjustLoop [of step "sgn diff0" R0 "\<bar>diff0\<bar>"] by (simp add: P_def)
    with assms show ?thesis
      by (simp add: enforceNonIncreasing_def)
  next
    case False
    with d le assms show ?thesis by auto
  qed
  have four: "sum_list (enforceNonIncreasing P) \<le> tot" if "step dvd tot" "vs \<noteq> []"
  proof -
    from good_sum [OF d(3)] have "step dvd sum_list P" by simp
    with d(4) that(1) have "step dvd d"
      by (metis dvd_add_right_iff dvd_diff diff_diff_eq2 add_diff_cancel_left')
    with d(1,2) that(2) assms(1) have "d = 0"
      using good_zero by blast
    with d(4) le show ?thesis by auto
  qed
  from one two three four show ?thesis
    unfolding t by simp
qed

lemma roundPayouts_cases:
  obtains
    (ten) "snd (tryRound vs tot 10) = tot" "roundPayoutsPrefer10Then5 vs tot = fst (tryRound vs tot 10)"
  | (five) "snd (tryRound vs tot 5) = tot" "roundPayoutsPrefer10Then5 vs tot = fst (tryRound vs tot 5)"
  | (empty) "fst (tryRound vs tot 5) = []" "roundPayoutsPrefer10Then5 vs tot = []"
  | (dump) r0 rs where "snd (tryRound vs tot 5) \<noteq> tot" "fst (tryRound vs tot 5) = r0 # rs"
      "roundPayoutsPrefer10Then5 vs tot
         = enforceNonIncreasing ((r0 + (tot - snd (tryRound vs tot 5))) # rs)"
proof (cases "snd (tryRound vs tot 10) = tot")
  case True
  then show ?thesis
    by (intro ten) (simp_all add: roundPayoutsPrefer10Then5_def Let_def)
next
  case n10: False
  show ?thesis
  proof (cases "snd (tryRound vs tot 5) = tot")
    case True
    with n10 show ?thesis
      by (intro five) (simp_all add: roundPayoutsPrefer10Then5_def Let_def)
  next
    case n5: False
    show ?thesis
    proof (cases "fst (tryRound vs tot 5)")
      case Nil
      with n10 n5 show ?thesis
        by (intro empty) (simp_all add: roundPayoutsPrefer10Then5_def Let_def enforceNonIncreasing_def)
    next
      case (Cons r0 rs)
      with n10 n5 show ?thesis
        by (intro dump [of r0 rs]) (simp_all add: roundPayoutsPrefer10Then5_def Let_def)
    qed
  qed
qed

text \<open>For a pool \<open>tot \<ge> 0\<close> every final amount is non-negative.\<close>

lemma roundPayouts_nonneg:
  assumes "0 \<le> tot" "x \<in> set (roundPayoutsPrefer10Then5 vs tot)"
  shows "0 \<le> x"
proof (cases vs tot rule: roundPayouts_cases)
  case ten
  with assms tryRound_spec [of 10 tot vs] show ?thesis
    by (auto simp: good_def)
next
  case five
  with assms tryRound_spec [of 5 tot vs] show ?thesis
    by (auto simp: good_def)
next
  case empty
  with assms show ?thesis by simp
next
  case (dump r0 rs)
  let ?S = "snd (tryRound vs tot 5)"
  from tryRound_spec [of 5 tot vs] assms(1) dump(2)
  have g: "good 5 (r0 # rs)" and s: "sorted_wrt (\<ge>) (r0 # rs)"
    and sm: "?S = sum_list (r0 # rs)" and lt: "?S < tot + 5"
    by simp_all
  from g have r0: "0 \<le> r0" "5 dvd r0" and rs: "\<forall>y \<in> set rs. 0 \<le> y"
    by (auto simp: good_def)
  have first: "0 \<le> r0 + (tot - ?S)"
  proof (cases "r0 = 0")
    case True
    with s have "\<forall>y \<in> set rs. y \<le> 0" by simp
    with rs have "\<forall>y \<in> set rs. y = 0" by (meson order_antisym)
    then have "sum_list rs = 0"
      by (induction rs) auto
    with True sm assms(1) show ?thesis by simp
  next
    case False
    with r0 have "5 \<le> r0"
      using good_zero [of 5 r0] by auto
    with lt show ?thesis by simp
  qed
  have "\<forall>y \<in> set (clampFrom (r0 + (tot - ?S)) rs). 0 \<le> y"
    using first rs by (rule clampFrom_nonneg)
  with first assms(2) dump(3) show ?thesis
    by (auto simp: enforceNonIncreasing_def)
qed

text \<open>
  For a pool \<open>tot \<ge> 0\<close> that is a multiple of 5, and at least one place, the final
  amounts sum to the pool.
\<close>

lemma roundPayouts_sum:
  assumes "0 \<le> tot" "5 dvd tot" "vs \<noteq> []"
  shows "sum_list (roundPayoutsPrefer10Then5 vs tot) = tot"
proof (cases vs tot rule: roundPayouts_cases)
  case ten
  with tryRound_spec [of 10 tot vs] assms(1) show ?thesis by simp
next
  case five
  with tryRound_spec [of 5 tot vs] assms(1) show ?thesis by simp
next
  case empty
  with length_tryRound [of vs tot 5] assms(3) show ?thesis by simp
next
  case (dump r0 rs)
  let ?S = "snd (tryRound vs tot 5)"
  from tryRound_spec [of 5 tot vs] assms dump(2)
  have s: "sorted_wrt (\<ge>) (r0 # rs)" and sm: "?S = sum_list (r0 # rs)" and le: "?S \<le> tot"
    by simp_all
  from le dump(1) have "0 < tot - ?S" by simp
  with s have "sorted_wrt (\<ge>) ((r0 + (tot - ?S)) # rs)"
    by auto
  then have "enforceNonIncreasing ((r0 + (tot - ?S)) # rs) = (r0 + (tot - ?S)) # rs"
    by (rule enforceNonIncreasing_id)
  with dump(3) sm show ?thesis by simp
qed

lemma basePayoutRatios_nonempty: "basePayoutRatios places numTeams \<noteq> []"
  using length_basePayoutRatios [of places numTeams] by (cases "basePayoutRatios places numTeams") auto

text \<open>
  In every result returned the payout amounts are non-negative, and they sum to
  the prize pool whenever the prize pool is a multiple of 5.
\<close>

lemma payouts_nonneg_and_sum:
  assumes "generateGame h c ps settings = Inr res"
  shows "(\<forall>x \<in> set (map amount (payouts res)). 0 \<le> x)
       \<and> (5 dvd prizePool res \<longrightarrow> sum_list (map amount (payouts res)) = prizePool res)"
proof -
  from assms obtain rs where
    pp: "prizePool res = max 0 (round (entryFeePerPlayer settings * of_nat (length ps)))"
    and rs: "rs \<noteq> []"
      "payouts res = mkPayouts (roundPayoutsPrefer10Then5 (map (\<lambda>r. r * of_int (prizePool res)) rs)
          (prizePool res))"
    using basePayoutRatios_nonempty by (elim generateGame_Inr) blast
  from pp have nn: "0 \<le> prizePool res" by simp
  have a: "map amount (payouts res)
      = roundPayoutsPrefer10Then5 (map (\<lambda>r. r * of_int (prizePool res)) rs) (prizePool res)"
    unfolding rs(2) by (rule amount_mkPayouts)
  have "\<forall>x \<in> set (map amount (payouts res)). 0 \<le> x"
    unfolding a using roundPayouts_nonneg [OF nn] by blast
  moreover have "sum_list (map amount (payouts res)) = prizePool res" if "5 dvd prizePool res"
    unfolding a using nn that rs(1) by (intro roundPayouts_sum) simp_all
  ultimately show ?thesis by blast
qed

subsection \<open>Where the sum is lost\<close>

text \<open>
  Claim C1 at seven players and an entry fee of 1 (default settings): the pool is
  7 and there are two teams, so the raw amounts are 4.2 and 2.8.  Rounding to 10
  gives \<open>[0, 0]\<close>, rounding to 5 gives \<open>[5, 5]\<close>, neither sums to 7; the fallback
  adds the residual \<open>-3\<close> to first place, \<open>[2, 5]\<close>, and the clamp that follows
  lowers second place to 2.  The payouts are \<open>[2, 2]\<close>: non-increasing, but their
  sum is 4, not 7.
\<close>

theorem payout_sum_lost:
  "summary (generateGame sampleHost sampleCourse sevenPlayers (mkSettings 1 None None None))
     = Some ([3, 4], 7, [2, 2])
   \<and> roundPayoutsPrefer10Then5 [21 / 5, 14 / 5] 7 = [2, 2]
   \<and> tryRound [21 / 5, 14 / 5] 7 10 = ([0, 0], 0)
   \<and> tryRound [21 / 5, 14 / 5] 7 5 = ([5, 5], 10)"
  by code_simp

section \<open>Payout ratios\<close>

text \<open>
  Claim C10 at seven paid places: the shares of places 1 to 6 are 0.35, 0.245,
  0.1715, 0.12005, 0.084035 and 0.0588245, which add up to more than 1, so the
  remainder that goes to place 7 is negative.  With 28 players (seven teams), an
  entry fee of 20 and seven paid places the payouts are still non-negative,
  because the rounding floors every amount at 0; place 7 is paid nothing.
\<close>

theorem negative_payout_ratio:
  "basePayoutRatios 7 7 =
     [7 / 20, 49 / 200, 343 / 2000, 2401 / 20000, 16807 / 200000, 117649 / 2000000,
      - (58819 / 2000000)]
   \<and> summary (generateGame sampleHost sampleCourse twentyEight (mkSettings 20 None None (Some 7)))
     = Some ([4, 4, 4, 4, 4, 4, 4], 560, [190, 130, 90, 70, 50, 30, 0])"
  by code_simp

end
